theory Spec2Isabelle
  imports Complex_Main "HOL-Library.AList"
begin

section \<open>Data model of \<open>backend/app/detection/behavior_analyzer.py\<close>\<close>

text \<open>
  Python numbers are modelled as follows: frame numbers, identifiers and counters are
  unbounded \<open>int\<close>; pixel coordinates and every quantity computed with \<open>math.sqrt\<close>,
  \<open>/\<close> or \<open>math.acos\<close> are \<open>real\<close> (the detector produces integer centres, which embed
  into the reals; floating-point rounding is idealised away).

  A detection is the dictionary built by \<open>ObjectDetector.detect_objects\<close>; the analyzer reads
  only its keys \<open>class_name\<close>, \<open>center\<close> and \<open>bbox\<close>.
\<close>

type_synonym point = "real \<times> real"
type_synonym box = "int \<times> int \<times> int \<times> int"

record detection =
  det_class_name :: string
  det_confidence :: real
  det_bbox :: box
  det_center :: point

datatype error = IndexError | KeyError

text \<open>The fields of class \<open>TrackedObject\<close>; \<open>track_id\<close> is the attribute \<open>id\<close>.\<close>

record tracked_object =
  track_id :: int
  class_name :: string
  first_seen :: int
  last_seen :: int
  position_history :: "point list"
  bbox_history :: "box list"
  total_distance :: real
  is_stationary :: bool
  stationary_frames :: int
  suspicious_behavior :: bool
  behavior_type :: "string option"
  confidence :: real

text \<open>
  \<open>collections.deque(maxlen=30)\<close>: the contents are a list, oldest entry first. Appending to
  a full deque discards entries from the left end; reading \<open>dq[-1]\<close> of an empty deque raises
  \<open>IndexError\<close>.
\<close>

definition maxlen :: nat where
  "maxlen = 30"

definition deque_append :: "'a list \<Rightarrow> 'a \<Rightarrow> 'a list" where
  "deque_append dq x = (let ys = dq @ [x] in drop (length ys - maxlen) ys)"

definition newest :: "'a list \<Rightarrow> error + 'a" where
  "newest dq = (if dq = [] then Inl IndexError else Inr (last dq))"

text \<open>The expression \<open>math.sqrt((curr[0] - prev[0])**2 + (curr[1] - prev[1])**2)\<close>.\<close>

definition euclid :: "point \<Rightarrow> point \<Rightarrow> real" where
  "euclid prev_pos curr_pos =
     sqrt ((fst curr_pos - fst prev_pos)\<^sup>2 + (snd curr_pos - snd prev_pos)\<^sup>2)"

text \<open>\<open>TrackedObject.__init__\<close>\<close>

definition new_tracked_object :: "int \<Rightarrow> detection \<Rightarrow> int \<Rightarrow> tracked_object" where
  "new_tracked_object oid det frame_number =
     \<lparr> track_id = oid,
       class_name = det_class_name det,
       first_seen = frame_number,
       last_seen = frame_number,
       position_history = deque_append [] (det_center det),
       bbox_history = deque_append [] (det_bbox det),
       total_distance = 0,
       is_stationary = False,
       stationary_frames = 0,
       suspicious_behavior = False,
       behavior_type = None,
       confidence = 0 \<rparr>"

text \<open>\<open>TrackedObject.update\<close>\<close>

definition update :: "tracked_object \<Rightarrow> detection \<Rightarrow> int \<Rightarrow> error + tracked_object" where
  "update t det frame_number =
     (case newest (position_history t) of
        Inl e \<Rightarrow> Inl e
      | Inr prev_pos \<Rightarrow>
          let curr_pos = det_center det;
              distance = euclid prev_pos curr_pos;
              t1 = t \<lparr> last_seen := frame_number,
                       total_distance := total_distance t + distance,
                       position_history := deque_append (position_history t) curr_pos,
                       bbox_history := deque_append (bbox_history t) (det_bbox det) \<rparr>
          in if distance < 10
             then Inr (t1 \<lparr> stationary_frames := stationary_frames t + 1,
                            is_stationary :=
                              (if stationary_frames t + 1 > 30 then True else is_stationary t) \<rparr>)
             else Inr (t1 \<lparr> stationary_frames := 0, is_stationary := False \<rparr>))"

text \<open>
  \<open>TrackedObject.get_speed\<close>: the loop over \<open>range(1, len(recent_positions))\<close> slides over
  consecutive positions and accumulates into the local \<open>total_distance\<close>.
\<close>

fun speed_loop :: "point list \<Rightarrow> real \<Rightarrow> real" where
  "speed_loop (prev_pos # curr_pos # rest) total_dist =
     speed_loop (curr_pos # rest) (total_dist + euclid prev_pos curr_pos)"
| "speed_loop _ total_dist = total_dist"

definition get_speed :: "tracked_object \<Rightarrow> real" where
  "get_speed t =
     (if length (position_history t) < 2 then 0
      else let recent_positions = drop (length (position_history t) - 10) (position_history t)
           in speed_loop recent_positions 0 / real (length recent_positions - 1))"

definition is_moving_fast :: "tracked_object \<Rightarrow> real \<Rightarrow> bool" where
  "is_moving_fast t threshold = (get_speed t > threshold)"

definition time_in_view :: "tracked_object \<Rightarrow> int" where
  "time_in_view t = last_seen t - first_seen t + 1"

section \<open>The analyzer\<close>

text \<open>
  \<open>BehaviorAnalyzer\<close>: \<open>tracked_objects\<close> is a Python dict, which iterates in insertion order,
  so it is an association list (assignment to an existing key keeps its place, a new key
  goes to the end: \<open>AList.update\<close>); \<open>alert_cooldown\<close> is only looked up and assigned.
\<close>

record analyzer =
  tracked_objects :: "(int \<times> tracked_object) list"
  next_object_id :: int
  frame_count :: int
  alert_cooldown :: "int \<rightharpoonup> int"

definition FAST_MOVEMENT_THRESHOLD :: real where
  "FAST_MOVEMENT_THRESHOLD = 15"

definition LOITERING_THRESHOLD :: int where
  "LOITERING_THRESHOLD = 150"

definition ALERT_COOLDOWN_FRAMES :: int where
  "ALERT_COOLDOWN_FRAMES = 90"

definition init_analyzer :: analyzer where
  "init_analyzer =
     \<lparr> tracked_objects = [], next_object_id = 0, frame_count = 0, alert_cooldown = Map.empty \<rparr>"

text \<open>
  \<open>BehaviorAnalyzer.match_detection_to_tracked\<close>: the loop state is
  \<open>(best_match_id, best_distance)\<close>.
\<close>

fun match_loop ::
  "detection \<Rightarrow> int \<Rightarrow> (int \<times> tracked_object) list \<Rightarrow> int option \<times> real
     \<Rightarrow> error + (int option \<times> real)" where
  "match_loop det fc [] best = Inr best"
| "match_loop det fc ((obj_id, tracked_obj) # rest) best =
     (if class_name tracked_obj \<noteq> det_class_name det then match_loop det fc rest best
      else if fc - last_seen tracked_obj > 10 then match_loop det fc rest best
      else case newest (position_history tracked_obj) of
             Inl e \<Rightarrow> Inl e
           | Inr last_pos \<Rightarrow>
               let distance = euclid last_pos (det_center det)
               in if distance < snd best then match_loop det fc rest (Some obj_id, distance)
                  else match_loop det fc rest best)"

definition match_detection_to_tracked ::
  "analyzer \<Rightarrow> detection \<Rightarrow> real \<Rightarrow> error + int option" where
  "match_detection_to_tracked s det max_distance =
     (case match_loop det (frame_count s) (tracked_objects s) (None, max_distance) of
        Inl e \<Rightarrow> Inl e
      | Inr best \<Rightarrow> Inr (fst best))"

text \<open>
  \<open>BehaviorAnalyzer.update_tracks\<close>. The body of the loop over the detections is
  \<open>track_detection\<close>. The local set \<open>matched_ids\<close> of the source is only ever added to and
  never read, so it is no part of the result.
\<close>

definition track_detection :: "detection \<Rightarrow> analyzer \<Rightarrow> error + analyzer" where
  "track_detection det s =
     (case match_detection_to_tracked s det 100 of
        Inl e \<Rightarrow> Inl e
      | Inr (Some matched_id) \<Rightarrow>
          (case map_of (tracked_objects s) matched_id of
             None \<Rightarrow> Inl KeyError
           | Some tracked_obj \<Rightarrow>
               (case update tracked_obj det (frame_count s) of
                  Inl e \<Rightarrow> Inl e
                | Inr tracked_obj' \<Rightarrow>
                    Inr (s \<lparr> tracked_objects :=
                               AList.update matched_id tracked_obj' (tracked_objects s) \<rparr>)))
      | Inr None \<Rightarrow>
          let new_id = next_object_id s
          in Inr (s \<lparr> next_object_id := next_object_id s + 1,
                      tracked_objects :=
                        AList.update new_id (new_tracked_object new_id det (frame_count s))
                          (tracked_objects s) \<rparr>))"

fun detection_loop :: "detection list \<Rightarrow> analyzer \<Rightarrow> error + analyzer" where
  "detection_loop [] s = Inr s"
| "detection_loop (det # dets) s =
     (case track_detection det s of Inl e \<Rightarrow> Inl e | Inr s' \<Rightarrow> detection_loop dets s')"

definition to_remove :: "int \<Rightarrow> (int \<times> tracked_object) list \<Rightarrow> int list" where
  "to_remove fc objs = map fst (filter (\<lambda>(obj_id, tracked_obj). fc - last_seen tracked_obj > 30) objs)"

definition remove_old :: "int \<Rightarrow> (int \<times> tracked_object) list \<Rightarrow> (int \<times> tracked_object) list" where
  "remove_old fc objs = foldl (\<lambda>al obj_id. AList.delete obj_id al) objs (to_remove fc objs)"

definition update_tracks :: "detection list \<Rightarrow> analyzer \<Rightarrow> error + analyzer" where
  "update_tracks detections s =
     (case detection_loop detections (s \<lparr> frame_count := frame_count s + 1 \<rparr>) of
        Inl e \<Rightarrow> Inl e
      | Inr s' \<Rightarrow> Inr (s' \<lparr> tracked_objects := remove_old (frame_count s') (tracked_objects s') \<rparr>))"

section \<open>Behaviour classification\<close>

text \<open>
  \<open>BehaviorAnalyzer.detect_erratic_movement\<close>: \<open>direction_change\<close> is the body of the loop over
  \<open>range(2, len(positions))\<close> for the three positions \<open>positions[i-2]\<close>, \<open>positions[i-1]\<close>,
  \<open>positions[i]\<close>.
\<close>

definition direction_change :: "point \<Rightarrow> point \<Rightarrow> point \<Rightarrow> bool" where
  "direction_change p0 p1 p2 =
     (let v1 = (fst p1 - fst p0, snd p1 - snd p0);
          v2 = (fst p2 - fst p1, snd p2 - snd p1)
      in if (fst v1)\<^sup>2 + (snd v1)\<^sup>2 > 0 \<and> (fst v2)\<^sup>2 + (snd v2)\<^sup>2 > 0
         then let dot_product = fst v1 * fst v2 + snd v1 * snd v2;
                  mag1 = sqrt ((fst v1)\<^sup>2 + (snd v1)\<^sup>2);
                  mag2 = sqrt ((fst v2)\<^sup>2 + (snd v2)\<^sup>2);
                  cos_angle = dot_product / (mag1 * mag2);
                  cos_angle' = max (-1) (min 1 cos_angle);
                  angle = arccos cos_angle'
              in angle > pi / 2
         else False)"

fun erratic_loop :: "point list \<Rightarrow> int \<Rightarrow> int" where
  "erratic_loop (p0 # p1 # p2 # rest) direction_changes =
     erratic_loop (p1 # p2 # rest)
       (if direction_change p0 p1 p2 then direction_changes + 1 else direction_changes)"
| "erratic_loop _ direction_changes = direction_changes"

definition detect_erratic_movement :: "tracked_object \<Rightarrow> bool" where
  "detect_erratic_movement tracked_obj =
     (if length (position_history tracked_obj) < 10 then False
      else let positions = drop (length (position_history tracked_obj) - 15)
                             (position_history tracked_obj)
           in erratic_loop positions 0 \<ge> 5)"

text \<open>
  The events of \<open>detect_suspicious_behaviors\<close>. The three values of the key
  \<open>behavior_type\<close> are the strings \<open>fast_movement\<close>, \<open>loitering\<close> and \<open>erratic_movement\<close>.
\<close>

datatype behavior = fast_movement | loitering | erratic_movement

record event =
  ev_object_id :: int
  ev_behavior_type :: behavior
  ev_confidence :: real
  ev_description :: string
  ev_position :: point
  ev_class_name :: string

text \<open>Decimal rendering of an integer, as the f-string of the loitering description does.\<close>

fun str_nat :: "nat \<Rightarrow> string" where
  "str_nat n =
     (if n < 10 then [char_of (48 + n)] else str_nat (n div 10) @ [char_of (48 + n mod 10)])"

definition str_int :: "int \<Rightarrow> string" where
  "str_int i = (if i < 0 then CHR ''-'' # str_nat (nat (- i)) else str_nat (nat i))"

text \<open>
  The loop body of \<open>detect_suspicious_behaviors\<close> for one dictionary item works on the pair
  \<open>(suspicious_events, alert_cooldown)\<close>. Its three blocks, in source order:
\<close>

type_synonym alerts = "event list \<times> (int \<rightharpoonup> int)"

definition fast_movement_block :: "int \<Rightarrow> int \<Rightarrow> tracked_object \<Rightarrow> alerts \<Rightarrow> error + alerts" where
  "fast_movement_block fc obj_id tracked_obj acc =
     (if is_moving_fast tracked_obj FAST_MOVEMENT_THRESHOLD
      then if time_in_view tracked_obj > 10
           then (case newest (position_history tracked_obj) of
                   Inl e \<Rightarrow> Inl e
                 | Inr pos \<Rightarrow>
                     Inr (fst acc @
                            [\<lparr> ev_object_id = obj_id,
                               ev_behavior_type = fast_movement,
                               ev_confidence = min (get_speed tracked_obj / 30) 1,
                               ev_description =
                                 ''Person moving unusually fast (possible theft/escape)'',
                               ev_position = pos,
                               ev_class_name = class_name tracked_obj \<rparr>],
                          (snd acc)(obj_id \<mapsto> fc)))
           else Inr acc
      else Inr acc)"

definition loitering_block :: "int \<Rightarrow> int \<Rightarrow> tracked_object \<Rightarrow> alerts \<Rightarrow> error + alerts" where
  "loitering_block fc obj_id tracked_obj acc =
     (if is_stationary tracked_obj \<and> time_in_view tracked_obj > LOITERING_THRESHOLD
      then (case newest (position_history tracked_obj) of
              Inl e \<Rightarrow> Inl e
            | Inr pos \<Rightarrow>
                Inr (fst acc @
                       [\<lparr> ev_object_id = obj_id,
                          ev_behavior_type = loitering,
                          ev_confidence = min (real_of_int (time_in_view tracked_obj) / 300) 1,
                          ev_description =
                            ''Person loitering for '' @ str_int (time_in_view tracked_obj)
                              @ '' frames'',
                          ev_position = pos,
                          ev_class_name = class_name tracked_obj \<rparr>],
                     (snd acc)(obj_id \<mapsto> fc)))
      else Inr acc)"

definition erratic_movement_block :: "int \<Rightarrow> int \<Rightarrow> tracked_object \<Rightarrow> alerts \<Rightarrow> error + alerts" where
  "erratic_movement_block fc obj_id tracked_obj acc =
     (if detect_erratic_movement tracked_obj
      then (case newest (position_history tracked_obj) of
              Inl e \<Rightarrow> Inl e
            | Inr pos \<Rightarrow>
                Inr (fst acc @
                       [\<lparr> ev_object_id = obj_id,
                          ev_behavior_type = erratic_movement,
                          ev_confidence = 7 / 10,
                          ev_description = ''Person showing erratic movement pattern'',
                          ev_position = pos,
                          ev_class_name = class_name tracked_obj \<rparr>],
                     (snd acc)(obj_id \<mapsto> fc)))
      else Inr acc)"

definition in_cooldown :: "int \<Rightarrow> int \<Rightarrow> (int \<rightharpoonup> int) \<Rightarrow> bool" where
  "in_cooldown fc obj_id cooldown =
     (case cooldown obj_id of
        None \<Rightarrow> False
      | Some last_alert \<Rightarrow> fc - last_alert < ALERT_COOLDOWN_FRAMES)"

definition analyze_track :: "int \<Rightarrow> int \<Rightarrow> tracked_object \<Rightarrow> alerts \<Rightarrow> error + alerts" where
  "analyze_track fc obj_id tracked_obj acc =
     (if class_name tracked_obj \<noteq> ''person'' then Inr acc
      else if in_cooldown fc obj_id (snd acc) then Inr acc
      else case fast_movement_block fc obj_id tracked_obj acc of
             Inl e \<Rightarrow> Inl e
           | Inr acc1 \<Rightarrow>
               (case loitering_block fc obj_id tracked_obj acc1 of
                  Inl e \<Rightarrow> Inl e
                | Inr acc2 \<Rightarrow> erratic_movement_block fc obj_id tracked_obj acc2))"

fun behavior_loop :: "int \<Rightarrow> (int \<times> tracked_object) list \<Rightarrow> alerts \<Rightarrow> error + alerts" where
  "behavior_loop fc [] acc = Inr acc"
| "behavior_loop fc ((obj_id, tracked_obj) # rest) acc =
     (case analyze_track fc obj_id tracked_obj acc of
        Inl e \<Rightarrow> Inl e
      | Inr acc' \<Rightarrow> behavior_loop fc rest acc')"

text \<open>
  \<open>BehaviorAnalyzer.detect_suspicious_behaviors\<close> returns the list of events and leaves the
  analyzer with the updated cooldown dictionary.
\<close>

definition detect_suspicious_behaviors :: "analyzer \<Rightarrow> error + (event list \<times> analyzer)" where
  "detect_suspicious_behaviors s =
     (case behavior_loop (frame_count s) (tracked_objects s) ([], alert_cooldown s) of
        Inl e \<Rightarrow> Inl e
      | Inr acc \<Rightarrow> Inr (fst acc, s \<lparr> alert_cooldown := snd acc \<rparr>))"

section \<open>Auxiliary notions for the statements\<close>

text \<open>
  The class gate and the recency gate of the matcher, and the distance it compares.
\<close>

definition gate :: "detection \<Rightarrow> int \<Rightarrow> tracked_object \<Rightarrow> bool" where
  "gate det fc t \<longleftrightarrow> class_name t = det_class_name det \<and> fc - last_seen t \<le> 10"

definition track_dist :: "detection \<Rightarrow> tracked_object \<Rightarrow> real" where
  "track_dist det t = euclid (last (position_history t)) (det_center det)"

text \<open>
  The invariant of a single track, and of the analyzer: keys are distinct (it is a dict),
  smaller than the next identifier, and no track was seen after the current frame.
\<close>

definition track_ok :: "tracked_object \<Rightarrow> bool" where
  "track_ok t \<longleftrightarrow>
     length (position_history t) = length (bbox_history t) \<and>
     1 \<le> length (position_history t) \<and>
     length (position_history t) \<le> 30 \<and>
     first_seen t \<le> last_seen t"

definition analyzer_ok :: "analyzer \<Rightarrow> bool" where
  "analyzer_ok s \<longleftrightarrow>
     distinct (map fst (tracked_objects s)) \<and>
     (\<forall>(i, t) \<in> set (tracked_objects s).
        i < next_object_id s \<and> track_ok t \<and> last_seen t \<le> frame_count s)"

text \<open>
  The conditions of the three blocks of \<open>detect_suspicious_behaviors\<close>, the event each block
  appends, and the events and cooldown entries one pass produces for a track.
\<close>

fun qualifies :: "behavior \<Rightarrow> tracked_object \<Rightarrow> bool" where
  "qualifies fast_movement t \<longleftrightarrow> is_moving_fast t FAST_MOVEMENT_THRESHOLD \<and> time_in_view t > 10"
| "qualifies loitering t \<longleftrightarrow> is_stationary t \<and> time_in_view t > LOITERING_THRESHOLD"
| "qualifies erratic_movement t \<longleftrightarrow> detect_erratic_movement t"

fun event_confidence :: "behavior \<Rightarrow> tracked_object \<Rightarrow> real" where
  "event_confidence fast_movement t = min (get_speed t / 30) 1"
| "event_confidence loitering t = min (real_of_int (time_in_view t) / 300) 1"
| "event_confidence erratic_movement t = 7 / 10"

fun event_description :: "behavior \<Rightarrow> tracked_object \<Rightarrow> string" where
  "event_description fast_movement t = ''Person moving unusually fast (possible theft/escape)''"
| "event_description loitering t = ''Person loitering for '' @ str_int (time_in_view t) @ '' frames''"
| "event_description erratic_movement t = ''Person showing erratic movement pattern''"

definition expected_event :: "behavior \<Rightarrow> int \<Rightarrow> tracked_object \<Rightarrow> event" where
  "expected_event k i t =
     \<lparr> ev_object_id = i,
       ev_behavior_type = k,
       ev_confidence = event_confidence k t,
       ev_description = event_description k t,
       ev_position = last (position_history t),
       ev_class_name = class_name t \<rparr>"

definition track_events :: "int \<Rightarrow> int \<Rightarrow> tracked_object \<Rightarrow> (int \<rightharpoonup> int) \<Rightarrow> event list" where
  "track_events fc i t cd =
     (if class_name t = ''person'' \<and> \<not> in_cooldown fc i cd
      then map (\<lambda>k. expected_event k i t)
             (filter (\<lambda>k. qualifies k t) [fast_movement, loitering, erratic_movement])
      else [])"

definition cooldown_after ::
  "int \<Rightarrow> (int \<times> tracked_object) list \<Rightarrow> (int \<rightharpoonup> int) \<Rightarrow> (int \<rightharpoonup> int)" where
  "cooldown_after fc objs cd =
     (\<lambda>j. if \<exists>t. (j, t) \<in> set objs \<and> track_events fc j t cd \<noteq> [] then Some fc else cd j)"

text \<open>
  The two public operations of the analyzer, and sequences of them applied to an analyzer
  (an exception ends the sequence).
\<close>

datatype call = Update_tracks "detection list" | Detect_suspicious_behaviors

fun do_call :: "call \<Rightarrow> analyzer \<Rightarrow> error + analyzer" where
  "do_call (Update_tracks detections) s = update_tracks detections s"
| "do_call Detect_suspicious_behaviors s =
     (case detect_suspicious_behaviors s of Inl e \<Rightarrow> Inl e | Inr r \<Rightarrow> Inr (snd r))"

fun run_calls :: "call list \<Rightarrow> analyzer \<Rightarrow> error + analyzer" where
  "run_calls [] s = Inr s"
| "run_calls (c # cs) s = (case do_call c s of Inl e \<Rightarrow> Inl e | Inr s' \<Rightarrow> run_calls cs s')"

text \<open>A detection of a person centred at \<open>(x, y)\<close>, for the concrete scenarios.\<close>

definition person_at :: "real \<Rightarrow> real \<Rightarrow> detection" where
  "person_at x y =
     \<lparr> det_class_name = ''person'', det_confidence = 9 / 10,
       det_bbox = (0, 0, 10, 10), det_center = (x, y) \<rparr>"

text \<open>The analyzer reached from a new one by a sequence of calls, for the concrete scenarios.\<close>

definition state_after :: "call list \<Rightarrow> analyzer" where
  "state_after calls = (case run_calls calls init_analyzer of Inr s \<Rightarrow> s | Inl e \<Rightarrow> init_analyzer)"

text \<open>The malformed bounding boxes of the spec: \<open>x1 \<ge> x2\<close>.\<close>

definition malformed :: "detection \<Rightarrow> bool" where
  "malformed det = (case det_bbox det of (x1, y1, x2, y2) \<Rightarrow> x1 \<ge> x2)"

text \<open>A detection of a person whose box has lost its width (\<open>x1 = x2\<close>).\<close>

definition flat_person :: detection where
  "flat_person =
     \<lparr> det_class_name = ''person'', det_confidence = 9 / 10,
       det_bbox = (10, 0, 10, 20), det_center = (10, 10) \<rparr>"

text \<open>
  Two detections that agree in everything the tracker computes with, the class and the
  centre; and an analyzer with every stored box blanked, to compare analyzers up to the
  boxes they store.
\<close>

definition same_but_box :: "detection \<Rightarrow> detection \<Rightarrow> bool" where
  "same_but_box d d' \<longleftrightarrow> det_class_name d = det_class_name d' \<and> det_center d = det_center d'"

definition erase_track :: "tracked_object \<Rightarrow> tracked_object" where
  "erase_track t = t \<lparr> bbox_history := map (\<lambda>b. (0, 0, 0, 0)) (bbox_history t) \<rparr>"

definition erase_boxes :: "analyzer \<Rightarrow> analyzer" where
  "erase_boxes s = s \<lparr> tracked_objects := map (apsnd erase_track) (tracked_objects s) \<rparr>"

definition boxless :: "error + analyzer \<Rightarrow> error + analyzer" where
  "boxless r = (case r of Inl e \<Rightarrow> Inl e | Inr s \<Rightarrow> Inr (erase_boxes s))"

text \<open>The distances between consecutive positions of a history.\<close>

definition step_distances :: "point list \<Rightarrow> real list" where
  "step_distances ps = map (\<lambda>(p, q). euclid p q) (zip ps (tl ps))"

text \<open>
  The speed in the words of the spec: the average of the last \<open>min(10, history length)\<close>
  consecutive position pairs, and 0 when there are fewer than 2 positions.
\<close>

definition spec_speed :: "point list \<Rightarrow> real" where
  "spec_speed ps =
     (if length ps < 2 then 0
      else let pairs = step_distances ps;
               last_pairs = drop (length pairs - min 10 (length ps)) pairs
           in sum_list last_pairs / real (length last_pairs))"

text \<open>
  The speed over the last \<open>min(10, history length)\<close> positions, that is, over the last
  \<open>min(10, history length) - 1\<close> consecutive pairs.
\<close>

definition window_speed :: "point list \<Rightarrow> real" where
  "window_speed ps =
     (if length ps < 2 then 0
      else let pairs = step_distances ps;
               k = min 10 (length ps) - 1;
               last_pairs = drop (length pairs - k) pairs
           in sum_list last_pairs / real k)"

text \<open>A person walking along the x axis, one detection per frame.\<close>

definition walk :: "real list \<Rightarrow> call list" where
  "walk xs = map (\<lambda>x. Update_tracks [person_at x 0]) xs"

text \<open>
  The erratic-movement test in the words of the spec: the displacement vectors between
  consecutive positions, the angle between two vectors by the dot-product formula, and the
  number of consecutive vector pairs, neither of zero magnitude, whose angle exceeds a right
  angle, among the last 15 positions of a history of at least 10.
\<close>

type_synonym vector = "real \<times> real"

definition displacements :: "point list \<Rightarrow> vector list" where
  "displacements ps = map (\<lambda>(p, q). (fst q - fst p, snd q - snd p)) (zip ps (tl ps))"

definition magnitude :: "vector \<Rightarrow> real" where
  "magnitude v = sqrt ((fst v)\<^sup>2 + (snd v)\<^sup>2)"

definition dot :: "vector \<Rightarrow> vector \<Rightarrow> real" where
  "dot v w = fst v * fst w + snd v * snd w"

definition angle_between :: "vector \<Rightarrow> vector \<Rightarrow> real" where
  "angle_between v w = arccos (dot v w / (magnitude v * magnitude w))"

definition sharp_turn :: "vector \<Rightarrow> vector \<Rightarrow> bool" where
  "sharp_turn v w \<longleftrightarrow> magnitude v \<noteq> 0 \<and> magnitude w \<noteq> 0 \<and> angle_between v w > pi / 2"

definition spec_erratic :: "point list \<Rightarrow> bool" where
  "spec_erratic ps \<longleftrightarrow>
     length ps \<ge> 10 \<and>
     (let vs = displacements (drop (length ps - 15) ps)
      in length (filter (\<lambda>(v, w). sharp_turn v w) (zip vs (tl vs))) \<ge> 5)"

text \<open>
  A zig-zag of 15 positions whose steps alternate between the directions of 0 and 120
  degrees (steps of length 2), and a straight line of 15 positions.
\<close>

definition zigzag :: "point list" where
  "zigzag =
     [(0, 0), (2, 0), (1, sqrt 3), (3, sqrt 3), (2, 2 * sqrt 3), (4, 2 * sqrt 3),
      (3, 3 * sqrt 3), (5, 3 * sqrt 3), (4, 4 * sqrt 3), (6, 4 * sqrt 3), (5, 5 * sqrt 3),
      (7, 5 * sqrt 3), (6, 6 * sqrt 3), (8, 6 * sqrt 3), (7, 7 * sqrt 3)]"

definition straight_line :: "point list" where
  "straight_line =
     [(0, 0), (1, 0), (2, 0), (3, 0), (4, 0), (5, 0), (6, 0), (7, 0), (8, 0), (9, 0),
      (10, 0), (11, 0), (12, 0), (13, 0), (14, 0)]"

text \<open>An alert of track \<open>i\<close> at or after frame \<open>N\<close> is on record.\<close>

definition alerted_since :: "int \<Rightarrow> int \<Rightarrow> analyzer \<Rightarrow> bool" where
  "alerted_since N i s \<longleftrightarrow>
     N \<le> frame_count s \<and> (case alert_cooldown s i of None \<Rightarrow> False | Some c \<Rightarrow> N \<le> c)"

text \<open>
  The events of a pass of \<open>detect_suspicious_behaviors\<close> after a sequence of calls, as pairs
  of track identifier and behaviour kind.
\<close>

definition alerts_after :: "call list \<Rightarrow> (int \<times> behavior) list" where
  "alerts_after calls =
     (case detect_suspicious_behaviors (state_after calls) of
        Inl e \<Rightarrow> []
      | Inr r \<Rightarrow> map (\<lambda>e. (ev_object_id e, ev_behavior_type e)) (fst r))"

text \<open>A person pacing between \<open>x = 0\<close> and \<open>x = 20\<close>, one detection per frame, for 10 frames.\<close>

definition pacing :: "call list" where
  "pacing = walk [0, 20, 0, 20, 0, 20, 0, 20, 0, 20]"

definition pacing_track :: "int \<Rightarrow> point list \<Rightarrow> real \<Rightarrow> tracked_object" where
  "pacing_track n ps d =
     \<lparr> track_id = 0, class_name = ''person'', first_seen = 1, last_seen = n,
       position_history = ps, bbox_history = replicate (length ps) (0, 0, 10, 10),
       total_distance = d, is_stationary = False, stationary_frames = 0,
       suspicious_behavior = False, behavior_type = None, confidence = 0 \<rparr>"











section \<open>Verification\<close>

lemma newest_Inr: "dq \<noteq> [] \<Longrightarrow> newest dq = Inr (last dq)"
  by (simp add: newest_def)

lemma length_deque_append: "length (deque_append dq x) = min maxlen (length dq + 1)"
  by (simp add: deque_append_def Let_def)



lemma track_ok_new: "track_ok (new_tracked_object i d fn)"
  by (simp add: track_ok_def new_tracked_object_def length_deque_append maxlen_def)

lemma update_ok:
  assumes "track_ok t" "first_seen t \<le> fn"
  shows "\<exists>t'. update t d fn = Inr t' \<and> track_ok t' \<and> last_seen t' = fn
           \<and> first_seen t' = first_seen t \<and> class_name t' = class_name t"
proof -
  from assms have ne: "position_history t \<noteq> []" by (auto simp: track_ok_def)
  show ?thesis using assms
    by (simp add: update_def newest_Inr [OF ne] Let_def track_ok_def length_deque_append maxlen_def)
qed

lemma match_loop_spec:
  assumes "\<forall>(j, u) \<in> set objs. position_history u \<noteq> []"
  shows "\<exists>r rd. match_loop det fc objs (b, bd) = Inr (r, rd) \<and>
           (\<forall>(j, u) \<in> set objs. gate det fc u \<longrightarrow> rd \<le> track_dist det u) \<and>
           ((r = b \<and> rd = bd) \<or>
            (\<exists>i t. r = Some i \<and> (i, t) \<in> set objs \<and> gate det fc t \<and> track_dist det t = rd \<and> rd < bd))"
  using assms
proof (induction objs arbitrary: b bd)
  case Nil
  then show ?case by simp
next
  case (Cons p objs)
  obtain i t where p: "p = (i, t)" by (cases p)
  from Cons.prems have ne: "position_history t \<noteq> []" and rest: "\<forall>(j, u) \<in> set objs. position_history u \<noteq> []"
    by (auto simp: p)
  show ?case
  proof (cases "gate det fc t \<and> track_dist det t < bd")
    case True
    from Cons.IH [OF rest, of "Some i" "track_dist det t"]
    obtain r rd where m: "match_loop det fc objs (Some i, track_dist det t) = Inr (r, rd)"
      and lo: "\<forall>(j, u) \<in> set objs. gate det fc u \<longrightarrow> rd \<le> track_dist det u"
      and d: "(r = Some i \<and> rd = track_dist det t) \<or>
            (\<exists>i' t'. r = Some i' \<and> (i', t') \<in> set objs \<and> gate det fc t' \<and> track_dist det t' = rd \<and> rd < track_dist det t)"
      by blast
    have "match_loop det fc (p # objs) (b, bd) = Inr (r, rd)"
      using True m by (simp add: p gate_def track_dist_def newest_Inr [OF ne] Let_def)
    moreover have "rd \<le> track_dist det t" using d by auto
    ultimately show ?thesis using True lo d
      by (auto simp: p) 
  next
    case False
    from Cons.IH [OF rest, of b bd]
    obtain r rd where m: "match_loop det fc objs (b, bd) = Inr (r, rd)"
      and lo: "\<forall>(j, u) \<in> set objs. gate det fc u \<longrightarrow> rd \<le> track_dist det u"
      and d: "(r = b \<and> rd = bd) \<or>
            (\<exists>i' t'. r = Some i' \<and> (i', t') \<in> set objs \<and> gate det fc t' \<and> track_dist det t' = rd \<and> rd < bd)"
      by blast
    have "match_loop det fc (p # objs) (b, bd) = Inr (r, rd)"
      using False m by (auto simp add: p gate_def track_dist_def newest_Inr [OF ne] Let_def)
    moreover have "rd \<le> bd" using d by auto
    ultimately show ?thesis using False lo d
      by (auto simp: p)
  qed
qed

lemma set_update_cases:
  "p \<in> set (AList.update k v al) \<Longrightarrow> p = (k, v) \<or> p \<in> set al"
  by (induction al) (auto split: if_splits)

lemma analyzer_ok_update:
  assumes ok: "analyzer_ok s" and t: "track_ok t" "last_seen t \<le> frame_count s"
    and i: "i < n" "next_object_id s \<le> n"
  shows "analyzer_ok (s \<lparr> next_object_id := n,
                          tracked_objects := AList.update i t (tracked_objects s) \<rparr>)"
proof -
  have "distinct (map fst (AList.update i t (tracked_objects s)))"
    using ok by (simp add: analyzer_ok_def distinct_update)
  moreover have "j < n \<and> track_ok u \<and> last_seen u \<le> frame_count s"
    if "(j, u) \<in> set (AList.update i t (tracked_objects s))" for j u
  proof -
    from set_update_cases [OF that] show ?thesis
    proof
      assume "(j, u) = (i, t)"
      with t i show ?thesis by simp
    next
      assume "(j, u) \<in> set (tracked_objects s)"
      with ok i show ?thesis by (fastforce simp: analyzer_ok_def)
    qed
  qed
  ultimately show ?thesis by (auto simp: analyzer_ok_def)
qed

lemma match_detection_spec:
  assumes "\<forall>(j, u) \<in> set (tracked_objects s). position_history u \<noteq> []"
  shows "\<exists>r. match_detection_to_tracked s det md = Inr r \<and>
           (case r of
              None \<Rightarrow> \<forall>(j, u) \<in> set (tracked_objects s).
                        gate det (frame_count s) u \<longrightarrow> md \<le> track_dist det u
            | Some i \<Rightarrow> \<exists>t. (i, t) \<in> set (tracked_objects s) \<and> gate det (frame_count s) t
                        \<and> track_dist det t < md
                        \<and> (\<forall>(j, u) \<in> set (tracked_objects s).
                              gate det (frame_count s) u \<longrightarrow> track_dist det t \<le> track_dist det u))"
proof -
  from match_loop_spec [OF assms, of det "frame_count s" None md]
  obtain r rd where m: "match_loop det (frame_count s) (tracked_objects s) (None, md) = Inr (r, rd)"
    and lo: "\<forall>(j, u) \<in> set (tracked_objects s). gate det (frame_count s) u \<longrightarrow> rd \<le> track_dist det u"
    and d: "(r = None \<and> rd = md) \<or>
            (\<exists>i t. r = Some i \<and> (i, t) \<in> set (tracked_objects s) \<and> gate det (frame_count s) t
                   \<and> track_dist det t = rd \<and> rd < md)"
    by blast
  have "match_detection_to_tracked s det md = Inr r"
    by (simp add: match_detection_to_tracked_def m)
  moreover have "(case r of
              None \<Rightarrow> \<forall>(j, u) \<in> set (tracked_objects s).
                        gate det (frame_count s) u \<longrightarrow> md \<le> track_dist det u
            | Some i \<Rightarrow> \<exists>t. (i, t) \<in> set (tracked_objects s) \<and> gate det (frame_count s) t
                        \<and> track_dist det t < md
                        \<and> (\<forall>(j, u) \<in> set (tracked_objects s).
                              gate det (frame_count s) u \<longrightarrow> track_dist det t \<le> track_dist det u))"
    using d lo by (cases r) auto
  ultimately show ?thesis by blast
qed

lemma analyzer_ok_nonempty:
  "analyzer_ok s \<Longrightarrow> \<forall>(j, u) \<in> set (tracked_objects s). position_history u \<noteq> []"
  by (auto simp: analyzer_ok_def track_ok_def)

lemma track_detection_ok:
  assumes ok: "analyzer_ok s"
  shows "\<exists>s'. track_detection det s = Inr s' \<and> analyzer_ok s' \<and> frame_count s' = frame_count s
           \<and> alert_cooldown s' = alert_cooldown s"
proof -
  from match_detection_spec [OF analyzer_ok_nonempty [OF ok], of det 100]
  obtain r where m: "match_detection_to_tracked s det 100 = Inr r"
    and r0: "case r of
              None \<Rightarrow> \<forall>(j, u) \<in> set (tracked_objects s).
                        gate det (frame_count s) u \<longrightarrow> 100 \<le> track_dist det u
            | Some i \<Rightarrow> \<exists>t. (i, t) \<in> set (tracked_objects s) \<and> gate det (frame_count s) t
                        \<and> track_dist det t < 100
                        \<and> (\<forall>(j, u) \<in> set (tracked_objects s).
                              gate det (frame_count s) u \<longrightarrow> track_dist det t \<le> track_dist det u)"
    by blast
  have r: "\<exists>t. (i, t) \<in> set (tracked_objects s)" if "r = Some i" for i
    using r0 that by auto
  show ?thesis
  proof (cases r)
    case None
    let ?n = "next_object_id s"
    let ?s' = "s \<lparr> next_object_id := ?n + 1,
                   tracked_objects := AList.update ?n (new_tracked_object ?n det (frame_count s))
                                        (tracked_objects s) \<rparr>"
    have td: "track_detection det s = Inr ?s'"
      by (simp add: track_detection_def m None Let_def)
    have "last_seen (new_tracked_object ?n det (frame_count s)) \<le> frame_count s"
      by (simp add: new_tracked_object_def)
    from analyzer_ok_update [OF ok track_ok_new this, of ?n "?n + 1"]
    have "analyzer_ok ?s'" by simp
    with td show ?thesis by simp
  next
    case (Some i)
    with r obtain t where it: "(i, t) \<in> set (tracked_objects s)" by blast
    from ok have dist: "distinct (map fst (tracked_objects s))" by (simp add: analyzer_ok_def)
    from it dist have mo: "map_of (tracked_objects s) i = Some t" by simp
    from ok it have tok: "track_ok t" and ls: "last_seen t \<le> frame_count s" and ilt: "i < next_object_id s"
      by (auto simp: analyzer_ok_def)
    then have "first_seen t \<le> frame_count s" by (simp add: track_ok_def)
    from update_ok [OF tok this, of det]
    obtain t' where u: "update t det (frame_count s) = Inr t'" and tok': "track_ok t'"
      and ls': "last_seen t' = frame_count s" by blast
    let ?s' = "s \<lparr> tracked_objects := AList.update i t' (tracked_objects s) \<rparr>"
    have td: "track_detection det s = Inr ?s'"
      by (simp add: track_detection_def m Some mo u)
    from analyzer_ok_update [OF ok tok', of i "next_object_id s"] ls' ilt
    have "analyzer_ok ?s'" by simp
    with td show ?thesis by simp
  qed
qed

lemma detection_loop_ok:
  "analyzer_ok s \<Longrightarrow>
   \<exists>s'. detection_loop dets s = Inr s' \<and> analyzer_ok s' \<and> frame_count s' = frame_count s
           \<and> alert_cooldown s' = alert_cooldown s"
proof (induction dets arbitrary: s)
  case Nil
  then show ?case by simp
next
  case (Cons d dets)
  from track_detection_ok [OF Cons.prems, of d]
  obtain s1 where t: "track_detection d s = Inr s1" and ok1: "analyzer_ok s1"
    and fc: "frame_count s1 = frame_count s" and cd: "alert_cooldown s1 = alert_cooldown s" by blast
  from Cons.IH [OF ok1] t fc cd show ?case by auto
qed

lemma foldl_delete_filter:
  "foldl (\<lambda>al k. AList.delete k al) al ks = filter (\<lambda>p. fst p \<notin> set ks) al"
proof (induction ks arbitrary: al)
  case Nil
  then show ?case by simp
next
  case (Cons k ks)
  have "AList.delete k al = filter (\<lambda>p. fst p \<noteq> k) al"
    by (induction al) auto
  then show ?case using Cons.IH [of "AList.delete k al"]
    by (auto intro: filter_cong)
qed

lemma to_remove_mem:
  "i \<in> set (to_remove fc objs) \<longleftrightarrow> (\<exists>u. (i, u) \<in> set objs \<and> fc - last_seen u > 30)"
  by (induction objs) (auto simp: to_remove_def)

lemma remove_old_filter:
  assumes "distinct (map fst objs)"
  shows "remove_old fc objs = filter (\<lambda>(obj_id, tracked_obj). fc - last_seen tracked_obj \<le> 30) objs"
proof -
  have key: "(fst p \<notin> set (to_remove fc objs)) = (fc - last_seen (snd p) \<le> 30)"
    if pin: "p \<in> set objs" for p
  proof -
    obtain i t where p: "p = (i, t)" by (cases p)
    have uniq: "u = t" if "(i, u) \<in> set objs" for u
      using assms that pin [unfolded p] by (rule eq_key_imp_eq_value)
    show ?thesis
    proof (cases "fc - last_seen t \<le> 30")
      case True
      then have "i \<notin> set (to_remove fc objs)"
        unfolding to_remove_mem using uniq by fastforce
      with True show ?thesis by (simp add: p)
    next
      case False
      then have "i \<in> set (to_remove fc objs)"
        unfolding to_remove_mem using pin [unfolded p] by fastforce
      with False show ?thesis by (simp add: p)
    qed
  qed
  have "filter (\<lambda>p. fst p \<notin> set (to_remove fc objs)) objs
          = filter (\<lambda>p. fc - last_seen (snd p) \<le> 30) objs"
    by (rule filter_cong [OF refl]) (rule key)
  also have "(\<lambda>p. fc - last_seen (snd p) \<le> 30)
               = (\<lambda>(obj_id, tracked_obj). fc - last_seen tracked_obj \<le> 30)"
    by (simp add: fun_eq_iff)
  finally show ?thesis
    by (simp add: remove_old_def foldl_delete_filter)
qed

lemma update_tracks_ok:
  assumes ok: "analyzer_ok s"
  shows "\<exists>s'. update_tracks dets s = Inr s' \<and> analyzer_ok s' \<and> frame_count s' = frame_count s + 1
           \<and> alert_cooldown s' = alert_cooldown s"
proof -
  let ?s0 = "s \<lparr> frame_count := frame_count s + 1 \<rparr>"
  have ok0: "analyzer_ok ?s0" using ok unfolding analyzer_ok_def by force
  from detection_loop_ok [OF ok0, of dets]
  obtain s1 where l: "detection_loop dets ?s0 = Inr s1" and ok1: "analyzer_ok s1"
    and fc: "frame_count s1 = frame_count s + 1" and cd: "alert_cooldown s1 = alert_cooldown s"
    by auto
  let ?s' = "s1 \<lparr> tracked_objects := remove_old (frame_count s1) (tracked_objects s1) \<rparr>"
  have u: "update_tracks dets s = Inr ?s'" by (simp add: update_tracks_def l)
  from ok1 have d1: "distinct (map fst (tracked_objects s1))" by (simp add: analyzer_ok_def)
  have "analyzer_ok ?s'"
    using ok1 by (auto simp: analyzer_ok_def remove_old_filter [OF d1] distinct_map_filter)
  with u fc cd show ?thesis by simp
qed

lemma fast_movement_block_eq:
  assumes "position_history t \<noteq> []"
  shows "fast_movement_block fc i t acc =
           Inr (if qualifies fast_movement t
                then (fst acc @ [expected_event fast_movement i t], (snd acc)(i \<mapsto> fc)) else acc)"
  by (simp add: fast_movement_block_def newest_Inr [OF assms] expected_event_def)

lemma loitering_block_eq:
  assumes "position_history t \<noteq> []"
  shows "loitering_block fc i t acc =
           Inr (if qualifies loitering t
                then (fst acc @ [expected_event loitering i t], (snd acc)(i \<mapsto> fc)) else acc)"
  by (simp add: loitering_block_def newest_Inr [OF assms] expected_event_def)

lemma erratic_movement_block_eq:
  assumes "position_history t \<noteq> []"
  shows "erratic_movement_block fc i t acc =
           Inr (if qualifies erratic_movement t
                then (fst acc @ [expected_event erratic_movement i t], (snd acc)(i \<mapsto> fc)) else acc)"
  by (simp add: erratic_movement_block_def newest_Inr [OF assms] expected_event_def)

lemma analyze_track_eq:
  assumes ne: "position_history t \<noteq> []"
  shows "analyze_track fc i t (evs, cd) =
           Inr (evs @ track_events fc i t cd,
                if track_events fc i t cd = [] then cd else cd(i \<mapsto> fc))"
  by (auto simp add: analyze_track_def track_events_def fast_movement_block_eq [OF ne]
        loitering_block_eq [OF ne] erratic_movement_block_eq [OF ne])

lemma in_cooldown_other: "j \<noteq> i \<Longrightarrow> in_cooldown fc j (cd(i \<mapsto> v)) = in_cooldown fc j cd"
  by (simp add: in_cooldown_def)

lemma track_events_other:
  "j \<noteq> i \<Longrightarrow> track_events fc j u (cd(i \<mapsto> v)) = track_events fc j u cd"
  by (simp add: track_events_def in_cooldown_other)

lemma behavior_loop_eq:
  assumes "distinct (map fst objs)" "\<forall>(j, u) \<in> set objs. position_history u \<noteq> []"
  shows "behavior_loop fc objs (evs, cd) =
           Inr (evs @ concat (map (\<lambda>(i, t). track_events fc i t cd) objs),
                cooldown_after fc objs cd)"
  using assms
proof (induction objs arbitrary: evs cd)
  case Nil
  then show ?case by (simp add: cooldown_after_def)
next
  case (Cons p objs)
  obtain i t where p: "p = (i, t)" by (cases p)
  from Cons.prems have ne: "position_history t \<noteq> []"
    and rest: "\<forall>(j, u) \<in> set objs. position_history u \<noteq> []"
    and dist: "distinct (map fst objs)" and fresh: "i \<notin> fst ` set objs"
    by (auto simp: p)
  let ?te = "track_events fc i t cd"
  let ?cd1 = "if ?te = [] then cd else cd(i \<mapsto> fc)"
  have same: "track_events fc j u ?cd1 = track_events fc j u cd" if "(j, u) \<in> set objs" for j u
  proof -
    from that fresh have "j \<noteq> i" by force
    then show ?thesis by (simp add: track_events_other)
  qed
  have evs_eq: "map (\<lambda>(j, u). track_events fc j u ?cd1) objs
                 = map (\<lambda>(j, u). track_events fc j u cd) objs"
    by (rule map_cong [OF refl]) (use same in auto)
  have cd_eq: "cooldown_after fc objs ?cd1 = cooldown_after fc (p # objs) cd"
  proof
    fix j
    show "cooldown_after fc objs ?cd1 j = cooldown_after fc (p # objs) cd j"
    proof (cases "j = i")
      case True
      with fresh have "\<not> (\<exists>u. (j, u) \<in> set objs)" by force
      with True show ?thesis by (simp add: cooldown_after_def p)
    next
      case False
      have "(\<exists>u. (j, u) \<in> set objs \<and> track_events fc j u ?cd1 \<noteq> [])
              = (\<exists>u. (j, u) \<in> set objs \<and> track_events fc j u cd \<noteq> [])"
        using same by metis
      with False show ?thesis by (auto simp add: cooldown_after_def p)
    qed
  qed
  have "behavior_loop fc (p # objs) (evs, cd) = behavior_loop fc objs (evs @ ?te, ?cd1)"
    by (simp add: p analyze_track_eq [OF ne])
  also have "\<dots> = Inr ((evs @ ?te) @ concat (map (\<lambda>(j, u). track_events fc j u ?cd1) objs),
                       cooldown_after fc objs ?cd1)"
    by (rule Cons.IH [OF dist rest])
  finally show ?case by (simp add: evs_eq cd_eq p)
qed

lemma detect_eq:
  assumes "analyzer_ok s"
  shows "detect_suspicious_behaviors s =
           Inr (concat (map (\<lambda>(i, t). track_events (frame_count s) i t (alert_cooldown s))
                          (tracked_objects s)),
                s \<lparr> alert_cooldown :=
                      cooldown_after (frame_count s) (tracked_objects s) (alert_cooldown s) \<rparr>)"
proof -
  from assms have "distinct (map fst (tracked_objects s))" by (simp add: analyzer_ok_def)
  from behavior_loop_eq [OF this analyzer_ok_nonempty [OF assms]]
  show ?thesis by (simp add: detect_suspicious_behaviors_def)
qed

lemma analyzer_ok_cooldown: "analyzer_ok (s \<lparr> alert_cooldown := cd \<rparr>) = analyzer_ok s"
  by (simp add: analyzer_ok_def)

lemma analyzer_ok_init: "analyzer_ok init_analyzer"
  by (simp add: analyzer_ok_def init_analyzer_def)

lemma do_call_ok:
  assumes "analyzer_ok s"
  shows "\<exists>s'. do_call c s = Inr s' \<and> analyzer_ok s' \<and> frame_count s \<le> frame_count s'"
proof (cases c)
  case (Update_tracks dets)
  from update_tracks_ok [OF assms, of dets] show ?thesis
    by (auto simp: Update_tracks)
next
  case Detect_suspicious_behaviors
  then show ?thesis
    using assms by (simp add: detect_eq [OF assms] analyzer_ok_cooldown)
qed

lemma run_calls_ok:
  "analyzer_ok s \<Longrightarrow>
   \<exists>s'. run_calls cs s = Inr s' \<and> analyzer_ok s' \<and> frame_count s \<le> frame_count s'"
proof (induction cs arbitrary: s)
  case Nil
  then show ?case by simp
next
  case (Cons c cs)
  from do_call_ok [OF Cons.prems, of c]
  obtain s1 where c: "do_call c s = Inr s1" and ok1: "analyzer_ok s1"
    and fc: "frame_count s \<le> frame_count s1" by blast
  from Cons.IH [OF ok1] c fc show ?case by fastforce
qed

text \<open>
  Claim C9. A freshly created track satisfies \<open>track_ok\<close>, and after any sequence of calls
  of \<open>update_tracks\<close> and \<open>detect_suspicious_behaviors\<close> on a new analyzer no call has raised
  and every track has a position history and a bounding-box history of the same length,
  between 1 and 30, and \<open>last_seen\<close> not before \<open>first_seen\<close>.
\<close>

theorem history_invariant:
  "track_ok (new_tracked_object oid det frame_number) \<and>
   (\<exists>s. run_calls calls init_analyzer = Inr s \<and>
        (\<forall>(obj_id, tracked_obj) \<in> set (tracked_objects s). track_ok tracked_obj))"
proof -
  from run_calls_ok [OF analyzer_ok_init, of calls]
  obtain s where "run_calls calls init_analyzer = Inr s" and "analyzer_ok s" by blast
  then show ?thesis by (auto simp: track_ok_new analyzer_ok_def)
qed

lemma euclid_same_y [simp]: "euclid (a, y) (b, y) = \<bar>b - a\<bar>"
  by (simp add: euclid_def)

lemmas eval_defs =
  update_tracks_def track_detection_def match_detection_to_tracked_def
  new_tracked_object_def update_def newest_def deque_append_def maxlen_def
  remove_old_def to_remove_def init_analyzer_def person_at_def Let_def

theorem history_invariant_witness:
  "\<exists>s. run_calls [Update_tracks [person_at 0 0], Update_tracks [person_at 3 0]] init_analyzer = Inr s
      \<and> map fst (tracked_objects s) = [0]
      \<and> (\<forall>(obj_id, tracked_obj) \<in> set (tracked_objects s). track_ok tracked_obj)"
  using history_invariant [of 0 "person_at 0 0" 1
      "[Update_tracks [person_at 0 0], Update_tracks [person_at 3 0]]"]
  by (auto simp: eval_defs)

text \<open>
  Claim C3. When every track has a stored position, the matcher returns without raising.
  An identifier it returns belongs to a track of the detection's class, seen at most 10
  frames ago, whose latest position is strictly closer than 100 to the detection's centre,
  and no track passing the two gates is closer. It returns \<open>None\<close> exactly when no track
  passes the gates within the radius, and the tracker then creates a new track.
\<close>

theorem match_nearest_eligible:
  assumes "\<forall>(j, u) \<in> set (tracked_objects s). position_history u \<noteq> []"
  shows "\<exists>r. match_detection_to_tracked s det 100 = Inr r \<and>
           (case r of
              Some i \<Rightarrow>
                \<exists>t. (i, t) \<in> set (tracked_objects s) \<and>
                    class_name t = det_class_name det \<and>
                    frame_count s - last_seen t \<le> 10 \<and>
                    track_dist det t < 100 \<and>
                    (\<forall>(j, u) \<in> set (tracked_objects s).
                       gate det (frame_count s) u \<longrightarrow> track_dist det t \<le> track_dist det u)
            | None \<Rightarrow>
                (\<forall>(j, u) \<in> set (tracked_objects s).
                   \<not> (gate det (frame_count s) u \<and> track_dist det u < 100)) \<and>
                track_detection det s =
                  Inr (s \<lparr> next_object_id := next_object_id s + 1,
                           tracked_objects :=
                             AList.update (next_object_id s)
                               (new_tracked_object (next_object_id s) det (frame_count s))
                               (tracked_objects s) \<rparr>))"
proof -
  from match_detection_spec [OF assms, of det 100]
  obtain r where m: "match_detection_to_tracked s det 100 = Inr r"
    and r: "case r of
              None \<Rightarrow> \<forall>(j, u) \<in> set (tracked_objects s).
                        gate det (frame_count s) u \<longrightarrow> 100 \<le> track_dist det u
            | Some i \<Rightarrow> \<exists>t. (i, t) \<in> set (tracked_objects s) \<and> gate det (frame_count s) t
                        \<and> track_dist det t < 100
                        \<and> (\<forall>(j, u) \<in> set (tracked_objects s).
                              gate det (frame_count s) u \<longrightarrow> track_dist det t \<le> track_dist det u)"
    by blast
  show ?thesis
  proof (cases r)
    case None
    have "track_detection det s =
            Inr (s \<lparr> next_object_id := next_object_id s + 1,
                     tracked_objects :=
                       AList.update (next_object_id s)
                         (new_tracked_object (next_object_id s) det (frame_count s))
                         (tracked_objects s) \<rparr>)"
      by (simp add: track_detection_def m None Let_def)
    moreover have "\<forall>(j, u) \<in> set (tracked_objects s).
                   \<not> (gate det (frame_count s) u \<and> track_dist det u < 100)"
      using r None by fastforce
    ultimately show ?thesis using m None by simp
  next
    case (Some i)
    with r obtain t where "(i, t) \<in> set (tracked_objects s)" "gate det (frame_count s) t"
      "track_dist det t < 100"
      "\<forall>(j, u) \<in> set (tracked_objects s).
          gate det (frame_count s) u \<longrightarrow> track_dist det t \<le> track_dist det u"
      by auto
    then show ?thesis using m Some by (auto simp: gate_def)
  qed
qed

lemma state_two_people:
  "run_calls [Update_tracks [person_at 0 0, person_at 500 0]] init_analyzer =
     Inr \<lparr> tracked_objects =
             [(0, new_tracked_object 0 (person_at 0 0) 1),
              (1, new_tracked_object 1 (person_at 500 0) 1)],
           next_object_id = 2, frame_count = 1, alert_cooldown = Map.empty \<rparr>"
  by (simp add: eval_defs)

lemma state_after_two_people:
  "state_after [Update_tracks [person_at 0 0, person_at 500 0]] =
     \<lparr> tracked_objects =
         [(0, new_tracked_object 0 (person_at 0 0) 1),
          (1, new_tracked_object 1 (person_at 500 0) 1)],
       next_object_id = 2, frame_count = 1, alert_cooldown = Map.empty \<rparr>"
  unfolding state_after_def state_two_people by simp

theorem match_nearest_eligible_witness:
  "map (\<lambda>(j, u). position_history u)
     (tracked_objects (state_after [Update_tracks [person_at 0 0, person_at 500 0]]))
     = [[(0, 0)], [(500, 0)]] \<and>
   match_detection_to_tracked (state_after [Update_tracks [person_at 0 0, person_at 500 0]])
     (person_at 460 0) 100 = Inr (Some 1) \<and>
   (\<exists>t. (1, t) \<in> set (tracked_objects (state_after [Update_tracks [person_at 0 0, person_at 500 0]]))
       \<and> track_dist (person_at 460 0) t < 100)"
proof -
  let ?s = "state_after [Update_tracks [person_at 0 0, person_at 500 0]]"
  have hist: "map (\<lambda>(j, u). position_history u) (tracked_objects ?s) = [[(0, 0)], [(500, 0)]]"
    unfolding state_after_two_people
    by (simp add: new_tracked_object_def deque_append_def maxlen_def person_at_def)
  have h: "\<forall>(j, u) \<in> set (tracked_objects ?s). position_history u \<noteq> []"
    unfolding state_after_two_people by (simp add: new_tracked_object_def deque_append_def maxlen_def)
  have m: "match_detection_to_tracked ?s (person_at 460 0) 100 = Inr (Some 1)"
    unfolding state_after_two_people by (simp add: eval_defs)
  from match_nearest_eligible [OF h, of "person_at 460 0"] m hist
  show ?thesis by auto
qed

lemma track_detection_cases:
  assumes ok: "analyzer_ok s"
  shows "(\<exists>i t t'. (i, t) \<in> set (tracked_objects s) \<and> gate det (frame_count s) t \<and>
            track_dist det t < 100 \<and> update t det (frame_count s) = Inr t' \<and>
            track_ok t' \<and> last_seen t' = frame_count s \<and> class_name t' = class_name t \<and>
            track_detection det s = Inr (s \<lparr> tracked_objects := AList.update i t' (tracked_objects s) \<rparr>))
       \<or> ((\<forall>(j, u) \<in> set (tracked_objects s).
               \<not> (gate det (frame_count s) u \<and> track_dist det u < 100)) \<and>
           track_detection det s =
             Inr (s \<lparr> next_object_id := next_object_id s + 1,
                      tracked_objects :=
                        AList.update (next_object_id s)
                          (new_tracked_object (next_object_id s) det (frame_count s))
                          (tracked_objects s) \<rparr>))"
proof -
  from match_detection_spec [OF analyzer_ok_nonempty [OF ok], of det 100]
  obtain r where m: "match_detection_to_tracked s det 100 = Inr r"
    and r: "case r of
              None \<Rightarrow> \<forall>(j, u) \<in> set (tracked_objects s).
                        gate det (frame_count s) u \<longrightarrow> 100 \<le> track_dist det u
            | Some i \<Rightarrow> \<exists>t. (i, t) \<in> set (tracked_objects s) \<and> gate det (frame_count s) t
                        \<and> track_dist det t < 100
                        \<and> (\<forall>(j, u) \<in> set (tracked_objects s).
                              gate det (frame_count s) u \<longrightarrow> track_dist det t \<le> track_dist det u)"
    by blast
  show ?thesis
  proof (cases r)
    case None
    have "track_detection det s =
            Inr (s \<lparr> next_object_id := next_object_id s + 1,
                     tracked_objects :=
                       AList.update (next_object_id s)
                         (new_tracked_object (next_object_id s) det (frame_count s))
                         (tracked_objects s) \<rparr>)"
      by (simp add: track_detection_def m None Let_def)
    moreover have "\<forall>(j, u) \<in> set (tracked_objects s).
                   \<not> (gate det (frame_count s) u \<and> track_dist det u < 100)"
      using r None by fastforce
    ultimately show ?thesis by blast
  next
    case (Some i)
    with r obtain t where it: "(i, t) \<in> set (tracked_objects s)"
      and g: "gate det (frame_count s) t" and d: "track_dist det t < 100"
      by auto
    from ok have dist: "distinct (map fst (tracked_objects s))" by (simp add: analyzer_ok_def)
    from it dist have mo: "map_of (tracked_objects s) i = Some t" by simp
    from ok it have tok: "track_ok t" and ls: "last_seen t \<le> frame_count s"
      by (auto simp: analyzer_ok_def)
    then have "first_seen t \<le> frame_count s" by (simp add: track_ok_def)
    from update_ok [OF tok this, of det]
    obtain t' where u: "update t det (frame_count s) = Inr t'" and tok': "track_ok t'"
      and ls': "last_seen t' = frame_count s" and cn: "class_name t' = class_name t" by blast
    have "track_detection det s = Inr (s \<lparr> tracked_objects := AList.update i t' (tracked_objects s) \<rparr>)"
      by (simp add: track_detection_def m Some mo u)
    with it g d u tok' ls' cn show ?thesis by blast
  qed
qed

lemma set_update_other:
  "(i, t) \<in> set al \<Longrightarrow> i \<noteq> k \<Longrightarrow> (i, t) \<in> set (AList.update k v al)"
  by (induction al) auto

lemma track_detection_untouched:
  assumes ok: "analyzer_ok s" and i: "i < next_object_id s"
    and cls: "det_class_name det \<noteq> class_name t"
  shows "\<exists>s'. track_detection det s = Inr s' \<and> analyzer_ok s' \<and> frame_count s' = frame_count s
           \<and> i < next_object_id s'
           \<and> ((i, t) \<in> set (tracked_objects s) \<longrightarrow> (i, t) \<in> set (tracked_objects s'))
           \<and> (i \<notin> fst ` set (tracked_objects s) \<longrightarrow> i \<notin> fst ` set (tracked_objects s'))"
proof -
  from track_detection_ok [OF ok, of det]
  obtain s' where td: "track_detection det s = Inr s'" and ok': "analyzer_ok s'"
    and fc: "frame_count s' = frame_count s" by blast
  from ok have dist: "distinct (map fst (tracked_objects s))" by (simp add: analyzer_ok_def)
  from track_detection_cases [OF ok, of det]
  show ?thesis
  proof (elim disjE exE conjE)
    fix j u u'
    assume ju: "(j, u) \<in> set (tracked_objects s)" and g: "gate det (frame_count s) u"
      and eq: "track_detection det s = Inr (s \<lparr> tracked_objects := AList.update j u' (tracked_objects s) \<rparr>)"
    from g cls have ne: "class_name u \<noteq> class_name t" by (simp add: gate_def)
    from td eq have s': "s' = s \<lparr> tracked_objects := AList.update j u' (tracked_objects s) \<rparr>"
      by simp
    have mem: "(i, t) \<in> set (tracked_objects s') " if it: "(i, t) \<in> set (tracked_objects s)"
    proof -
      have "j \<noteq> i"
      proof
        assume "j = i"
        with dist ju it have "u = t" by (metis eq_key_imp_eq_value)
        with ne show False by simp
      qed
      with it show ?thesis by (simp add: s' set_update_other)
    qed
    have keys: "fst ` set (tracked_objects s') = fst ` set (tracked_objects s)"
      using ju by (force simp: s' dom_update)
    have "next_object_id s' = next_object_id s" by (simp add: s')
    with td ok' fc i mem keys show ?thesis by simp
  next
    assume eq: "track_detection det s =
             Inr (s \<lparr> next_object_id := next_object_id s + 1,
                      tracked_objects :=
                        AList.update (next_object_id s)
                          (new_tracked_object (next_object_id s) det (frame_count s))
                          (tracked_objects s) \<rparr>)"
    from i have ine: "i \<noteq> next_object_id s" by simp
    from td eq have s': "s' = s \<lparr> next_object_id := next_object_id s + 1,
                      tracked_objects :=
                        AList.update (next_object_id s)
                          (new_tracked_object (next_object_id s) det (frame_count s))
                          (tracked_objects s) \<rparr>"
      by simp
    have mem: "(i, t) \<in> set (tracked_objects s')" if it: "(i, t) \<in> set (tracked_objects s)"
      using it ine by (simp add: s' set_update_other)
    have keys: "fst ` set (tracked_objects s') = insert (next_object_id s) (fst ` set (tracked_objects s))"
      by (simp add: s' dom_update)
    have "next_object_id s' = next_object_id s + 1" by (simp add: s')
    with td ok' fc i mem keys ine show ?thesis by simp
  qed
qed

lemma detection_loop_untouched:
  assumes "analyzer_ok s" "i < next_object_id s"
    "\<forall>d \<in> set dets. det_class_name d \<noteq> class_name t"
  shows "\<exists>s'. detection_loop dets s = Inr s' \<and> analyzer_ok s' \<and> frame_count s' = frame_count s
           \<and> i < next_object_id s'
           \<and> ((i, t) \<in> set (tracked_objects s) \<longrightarrow> (i, t) \<in> set (tracked_objects s'))
           \<and> (i \<notin> fst ` set (tracked_objects s) \<longrightarrow> i \<notin> fst ` set (tracked_objects s'))"
  using assms
proof (induction dets arbitrary: s)
  case Nil
  then show ?case by simp
next
  case (Cons d dets)
  from Cons.prems have cls: "det_class_name d \<noteq> class_name t"
    and rest: "\<forall>d \<in> set dets. det_class_name d \<noteq> class_name t" by simp_all
  from track_detection_untouched [OF Cons.prems(1,2) cls]
  obtain s1 where td: "track_detection d s = Inr s1" and ok1: "analyzer_ok s1"
    and fc1: "frame_count s1 = frame_count s" and i1: "i < next_object_id s1"
    and mem1: "(i, t) \<in> set (tracked_objects s) \<longrightarrow> (i, t) \<in> set (tracked_objects s1)"
    and key1: "i \<notin> fst ` set (tracked_objects s) \<longrightarrow> i \<notin> fst ` set (tracked_objects s1)"
    by blast
  from Cons.IH [OF ok1 i1 rest]
  obtain s' where dl: "detection_loop dets s1 = Inr s'" and ok': "analyzer_ok s'"
    and fc': "frame_count s' = frame_count s1" and i': "i < next_object_id s'"
    and mem': "(i, t) \<in> set (tracked_objects s1) \<longrightarrow> (i, t) \<in> set (tracked_objects s')"
    and key': "i \<notin> fst ` set (tracked_objects s1) \<longrightarrow> i \<notin> fst ` set (tracked_objects s')"
    by blast
  have "detection_loop (d # dets) s = Inr s'" by (simp add: td dl)
  with ok' fc' fc1 i' mem1 mem' key1 key' show ?case by simp
qed

lemma frame_untouched:
  assumes ok: "analyzer_ok s" and i: "i < next_object_id s"
    and cls: "\<forall>d \<in> set dets. det_class_name d \<noteq> class_name t"
  shows "\<exists>s'. update_tracks dets s = Inr s' \<and> analyzer_ok s' \<and> frame_count s' = frame_count s + 1
           \<and> i < next_object_id s'
           \<and> ((i, t) \<in> set (tracked_objects s) \<longrightarrow>
                (if frame_count s + 1 - last_seen t \<le> 30 then (i, t) \<in> set (tracked_objects s')
                 else i \<notin> fst ` set (tracked_objects s')))
           \<and> (i \<notin> fst ` set (tracked_objects s) \<longrightarrow> i \<notin> fst ` set (tracked_objects s'))"
proof -
  let ?s0 = "s \<lparr> frame_count := frame_count s + 1 \<rparr>"
  have ok0: "analyzer_ok ?s0" using ok unfolding analyzer_ok_def by force
  have i0: "i < next_object_id ?s0" using i by simp
  from detection_loop_untouched [OF ok0 i0 cls]
  obtain s1 where dl: "detection_loop dets ?s0 = Inr s1" and ok1: "analyzer_ok s1"
    and fc1: "frame_count s1 = frame_count s + 1" and i1: "i < next_object_id s1"
    and mem1: "(i, t) \<in> set (tracked_objects s) \<longrightarrow> (i, t) \<in> set (tracked_objects s1)"
    and key1: "i \<notin> fst ` set (tracked_objects s) \<longrightarrow> i \<notin> fst ` set (tracked_objects s1)"
    by auto
  from ok1 have d1: "distinct (map fst (tracked_objects s1))" by (simp add: analyzer_ok_def)
  let ?keep = "filter (\<lambda>(obj_id, tracked_obj). frame_count s + 1 - last_seen tracked_obj \<le> 30)
                 (tracked_objects s1)"
  let ?s' = "s1 \<lparr> tracked_objects := ?keep \<rparr>"
  have u: "update_tracks dets s = Inr ?s'"
    by (simp add: update_tracks_def dl remove_old_filter [OF d1] fc1)
  have ok': "analyzer_ok ?s'"
    using ok1 by (auto simp: analyzer_ok_def distinct_map_filter)
  have sel: "tracked_objects ?s' = ?keep" by simp
  have fc': "frame_count ?s' = frame_count s + 1" by (simp add: fc1)
  have i': "i < next_object_id ?s'" by (simp add: i1)
  have mem: "(i, t) \<in> set (tracked_objects s) \<longrightarrow>
               (if frame_count s + 1 - last_seen t \<le> 30 then (i, t) \<in> set (tracked_objects ?s')
                else i \<notin> fst ` set (tracked_objects ?s'))"
  proof
    assume it: "(i, t) \<in> set (tracked_objects s)"
    with mem1 have it1: "(i, t) \<in> set (tracked_objects s1)" by simp
    show "if frame_count s + 1 - last_seen t \<le> 30 then (i, t) \<in> set (tracked_objects ?s')
          else i \<notin> fst ` set (tracked_objects ?s')"
    proof (cases "frame_count s + 1 - last_seen t \<le> 30")
      case True
      then have "(i, t) \<in> set ?keep" using it1 by simp
      with True show ?thesis unfolding sel by simp
    next
      case False
      have "i \<notin> fst ` set ?keep"
      proof
        assume "i \<in> fst ` set ?keep"
        then obtain u where iu: "(i, u) \<in> set (tracked_objects s1)"
          and keep: "frame_count s + 1 - last_seen u \<le> 30" by auto
        from d1 iu it1 have "u = t" by (rule eq_key_imp_eq_value)
        with keep False show False by simp
      qed
      with False show ?thesis unfolding sel by simp
    qed
  qed
  have key: "i \<notin> fst ` set (tracked_objects s) \<longrightarrow> i \<notin> fst ` set (tracked_objects ?s')"
    unfolding sel using key1 by auto
  from u ok' fc' i' mem key show ?thesis by blast
qed

lemma update_tracks_keeps_recent:
  assumes "update_tracks dets s = Inr s'" "analyzer_ok s"
  shows "\<forall>(j, v) \<in> set (tracked_objects s'). frame_count s' - last_seen v \<le> 30"
proof -
  let ?s0 = "s \<lparr> frame_count := frame_count s + 1 \<rparr>"
  have ok0: "analyzer_ok ?s0" using assms(2) unfolding analyzer_ok_def by force
  from detection_loop_ok [OF ok0, of dets]
  obtain s1 where dl: "detection_loop dets ?s0 = Inr s1" and ok1: "analyzer_ok s1" by auto
  from ok1 have d1: "distinct (map fst (tracked_objects s1))" by (simp add: analyzer_ok_def)
  from assms(1) have "s' = s1 \<lparr> tracked_objects :=
                      filter (\<lambda>(obj_id, tracked_obj). frame_count s1 - last_seen tracked_obj \<le> 30)
                        (tracked_objects s1) \<rparr>"
    by (simp add: update_tracks_def dl remove_old_filter [OF d1])
  then show ?thesis by auto
qed

lemma frames_untouched:
  assumes "analyzer_ok s" "i < next_object_id s"
    "\<forall>f \<in> set fs. \<forall>d \<in> set f. det_class_name d \<noteq> class_name t"
    "(i, t) \<in> set (tracked_objects s) \<longrightarrow> frame_count s - last_seen t \<le> 30"
  shows "\<exists>s'. run_calls (map Update_tracks fs) s = Inr s' \<and> analyzer_ok s'
           \<and> frame_count s' = frame_count s + int (length fs)
           \<and> i < next_object_id s'
           \<and> ((i, t) \<in> set (tracked_objects s) \<longrightarrow>
                (if frame_count s' - last_seen t \<le> 30 then (i, t) \<in> set (tracked_objects s')
                 else i \<notin> fst ` set (tracked_objects s')))
           \<and> (i \<notin> fst ` set (tracked_objects s) \<longrightarrow> i \<notin> fst ` set (tracked_objects s'))"
  using assms
proof (induction fs arbitrary: s)
  case Nil
  then show ?case by simp
next
  case (Cons f fs)
  from Cons.prems have cls: "\<forall>d \<in> set f. det_class_name d \<noteq> class_name t"
    and rest: "\<forall>f \<in> set fs. \<forall>d \<in> set f. det_class_name d \<noteq> class_name t" by simp_all
  from frame_untouched [OF Cons.prems(1,2) cls]
  obtain s1 where u: "update_tracks f s = Inr s1" and ok1: "analyzer_ok s1"
    and fc1: "frame_count s1 = frame_count s + 1" and i1: "i < next_object_id s1"
    and mem1: "(i, t) \<in> set (tracked_objects s) \<longrightarrow>
                (if frame_count s + 1 - last_seen t \<le> 30 then (i, t) \<in> set (tracked_objects s1)
                 else i \<notin> fst ` set (tracked_objects s1))"
    and key1: "i \<notin> fst ` set (tracked_objects s) \<longrightarrow> i \<notin> fst ` set (tracked_objects s1)"
    by blast
  have gap1: "(i, t) \<in> set (tracked_objects s1) \<longrightarrow> frame_count s1 - last_seen t \<le> 30"
  proof
    assume it1: "(i, t) \<in> set (tracked_objects s1)"
    then have k: "i \<in> fst ` set (tracked_objects s1)" by force
    with key1 have "i \<in> fst ` set (tracked_objects s)" by blast
    then obtain u where iu: "(i, u) \<in> set (tracked_objects s)" by auto
    show "frame_count s1 - last_seen t \<le> 30"
    proof (rule ccontr)
      assume n: "\<not> frame_count s1 - last_seen t \<le> 30"
      from ok1 have d1: "distinct (map fst (tracked_objects s1))" by (simp add: analyzer_ok_def)
      from u ok1 Cons.prems(1) have "\<forall>(j, v) \<in> set (tracked_objects s1). frame_count s1 - last_seen v \<le> 30"
        using update_tracks_keeps_recent by blast
      with it1 n show False by auto
    qed
  qed
  from Cons.IH [OF ok1 i1 rest gap1]
  obtain s' where r: "run_calls (map Update_tracks fs) s1 = Inr s'" and ok': "analyzer_ok s'"
    and fc': "frame_count s' = frame_count s1 + int (length fs)" and i': "i < next_object_id s'"
    and mem': "(i, t) \<in> set (tracked_objects s1) \<longrightarrow>
                (if frame_count s' - last_seen t \<le> 30 then (i, t) \<in> set (tracked_objects s')
                 else i \<notin> fst ` set (tracked_objects s'))"
    and key': "i \<notin> fst ` set (tracked_objects s1) \<longrightarrow> i \<notin> fst ` set (tracked_objects s')"
    by blast
  have run: "run_calls (map Update_tracks (f # fs)) s = Inr s'" by (simp add: u r)
  have fc: "frame_count s' = frame_count s + int (length (f # fs))" using fc' fc1 by simp
  have mem: "if frame_count s' - last_seen t \<le> 30 then (i, t) \<in> set (tracked_objects s')
             else i \<notin> fst ` set (tracked_objects s')" if it: "(i, t) \<in> set (tracked_objects s)"
  proof (cases "frame_count s + 1 - last_seen t \<le> 30")
    case True
    with it mem1 mem' show ?thesis by simp
  next
    case False
    with it mem1 key' have "i \<notin> fst ` set (tracked_objects s')" by simp
    moreover from False fc have "\<not> frame_count s' - last_seen t \<le> 30" by simp
    ultimately show ?thesis by simp
  qed
  from run ok' fc i' mem key1 key' show ?case by blast
qed

text \<open>
  Claim C4. On an analyzer satisfying the invariant, \<open>update_tracks\<close> returns, for the frame
  number \<open>N = frame_count s + 1\<close>, exactly the tracks left by the detection loop whose gap
  \<open>N - last_seen\<close> is at most 30, in their order. In particular a track that no detection
  can match (here: every detection of the following frames has another class) is still
  there while the gap is at most 30 and its identifier is gone once the gap is 31.
\<close>

theorem eviction_after_30_frames:
  assumes "analyzer_ok s"
  shows "(\<exists>s1 s'. detection_loop dets (s \<lparr> frame_count := frame_count s + 1 \<rparr>) = Inr s1 \<and>
            update_tracks dets s = Inr s' \<and> frame_count s' = frame_count s + 1 \<and>
            tracked_objects s' =
              filter (\<lambda>(obj_id, tracked_obj). frame_count s' - last_seen tracked_obj \<le> 30)
                (tracked_objects s1)) \<and>
         (\<forall>i t fs. (i, t) \<in> set (tracked_objects s) \<and> frame_count s - last_seen t \<le> 30 \<and>
             (\<forall>f \<in> set fs. \<forall>d \<in> set f. det_class_name d \<noteq> class_name t) \<longrightarrow>
             (\<exists>s'. run_calls (map Update_tracks fs) s = Inr s' \<and>
                   frame_count s' = frame_count s + int (length fs) \<and>
                   (if frame_count s' - last_seen t \<le> 30 then (i, t) \<in> set (tracked_objects s')
                    else i \<notin> fst ` set (tracked_objects s'))))"
proof
  let ?s0 = "s \<lparr> frame_count := frame_count s + 1 \<rparr>"
  have ok0: "analyzer_ok ?s0" using assms unfolding analyzer_ok_def by force
  from detection_loop_ok [OF ok0, of dets]
  obtain s1 where dl: "detection_loop dets ?s0 = Inr s1" and ok1: "analyzer_ok s1"
    and fc1: "frame_count s1 = frame_count s + 1" by auto
  from ok1 have d1: "distinct (map fst (tracked_objects s1))" by (simp add: analyzer_ok_def)
  have "update_tracks dets s =
          Inr (s1 \<lparr> tracked_objects :=
                      filter (\<lambda>(obj_id, tracked_obj). frame_count s1 - last_seen tracked_obj \<le> 30)
                        (tracked_objects s1) \<rparr>)"
    by (simp add: update_tracks_def dl remove_old_filter [OF d1])
  with dl fc1
  show "\<exists>s1 s'. detection_loop dets ?s0 = Inr s1 \<and>
            update_tracks dets s = Inr s' \<and> frame_count s' = frame_count s + 1 \<and>
            tracked_objects s' =
              filter (\<lambda>(obj_id, tracked_obj). frame_count s' - last_seen tracked_obj \<le> 30)
                (tracked_objects s1)"
    by simp
next
  show "\<forall>i t fs. (i, t) \<in> set (tracked_objects s) \<and> frame_count s - last_seen t \<le> 30 \<and>
             (\<forall>f \<in> set fs. \<forall>d \<in> set f. det_class_name d \<noteq> class_name t) \<longrightarrow>
             (\<exists>s'. run_calls (map Update_tracks fs) s = Inr s' \<and>
                   frame_count s' = frame_count s + int (length fs) \<and>
                   (if frame_count s' - last_seen t \<le> 30 then (i, t) \<in> set (tracked_objects s')
                    else i \<notin> fst ` set (tracked_objects s')))"
  proof (intro allI impI)
    fix i t and fs :: "detection list list"
    assume h: "(i, t) \<in> set (tracked_objects s) \<and> frame_count s - last_seen t \<le> 30 \<and>
             (\<forall>f \<in> set fs. \<forall>d \<in> set f. det_class_name d \<noteq> class_name t)"
    with assms have i: "i < next_object_id s" by (auto simp: analyzer_ok_def)
    from h have cls: "\<forall>f \<in> set fs. \<forall>d \<in> set f. det_class_name d \<noteq> class_name t" by simp
    from h have gap: "(i, t) \<in> set (tracked_objects s) \<longrightarrow> frame_count s - last_seen t \<le> 30"
      by simp
    from frames_untouched [OF assms i cls gap] h
    show "\<exists>s'. run_calls (map Update_tracks fs) s = Inr s' \<and>
                   frame_count s' = frame_count s + int (length fs) \<and>
                   (if frame_count s' - last_seen t \<le> 30 then (i, t) \<in> set (tracked_objects s')
                    else i \<notin> fst ` set (tracked_objects s'))"
      by blast
  qed
qed

lemma state_one_person:
  "state_after [Update_tracks [person_at 0 0]] =
     \<lparr> tracked_objects = [(0, new_tracked_object 0 (person_at 0 0) 1)],
       next_object_id = 1, frame_count = 1, alert_cooldown = Map.empty \<rparr>"
  by (simp add: state_after_def eval_defs)

theorem eviction_after_30_frames_witness:
  "analyzer_ok (state_after [Update_tracks [person_at 0 0]]) \<and>
   (\<exists>s'. run_calls (map Update_tracks (replicate 30 [])) (state_after [Update_tracks [person_at 0 0]])
            = Inr s' \<and> frame_count s' = 31 \<and>
          (0, new_tracked_object 0 (person_at 0 0) 1) \<in> set (tracked_objects s')) \<and>
   (\<exists>s'. run_calls (map Update_tracks (replicate 31 [])) (state_after [Update_tracks [person_at 0 0]])
            = Inr s' \<and> frame_count s' = 32 \<and> 0 \<notin> fst ` set (tracked_objects s'))"
proof -
  let ?s = "state_after [Update_tracks [person_at 0 0]]"
  let ?t = "new_tracked_object 0 (person_at 0 0) 1"
  have ok: "analyzer_ok ?s"
    unfolding state_one_person
    by (simp add: analyzer_ok_def track_ok_new) (simp add: new_tracked_object_def)
  have it: "(0, ?t) \<in> set (tracked_objects ?s)" by (simp add: state_one_person)
  have fc: "frame_count ?s = 1" by (simp add: state_one_person)
  have ls: "last_seen ?t = 1" by (simp add: new_tracked_object_def)
  from eviction_after_30_frames [OF ok, of "[]"]
  have gen: "\<And>i t fs. (i, t) \<in> set (tracked_objects ?s) \<and> frame_count ?s - last_seen t \<le> 30 \<and>
             (\<forall>f \<in> set fs. \<forall>d \<in> set f. det_class_name d \<noteq> class_name t) \<Longrightarrow>
             (\<exists>s'. run_calls (map Update_tracks fs) ?s = Inr s' \<and>
                   frame_count s' = frame_count ?s + int (length fs) \<and>
                   (if frame_count s' - last_seen t \<le> 30 then (i, t) \<in> set (tracked_objects s')
                    else i \<notin> fst ` set (tracked_objects s')))"
    by blast
  from gen [of 0 ?t "replicate 30 []"] it
  have a: "\<exists>s'. run_calls (map Update_tracks (replicate 30 [])) ?s = Inr s' \<and> frame_count s' = 31 \<and>
          (0, ?t) \<in> set (tracked_objects s')"
    by (auto simp: fc ls split: if_splits)
  from gen [of 0 ?t "replicate 31 []"] it
  have b: "\<exists>s'. run_calls (map Update_tracks (replicate 31 [])) ?s = Inr s' \<and> frame_count s' = 32 \<and>
          0 \<notin> fst ` set (tracked_objects s')"
    by (auto simp: fc ls split: if_splits)
  from ok a b show ?thesis by blast
qed

text \<open>
  Claim C2, evaluated. After a frame with one person at \<open>(0, 0)\<close>, a frame with two persons
  at \<open>(1, 0)\<close> and \<open>(2, 0)\<close> updates track 0 twice: the first detection claims it, the second
  matches it again (nothing excludes it), no second track is created, and the track has
  gained two positions and two stationary steps in one frame.
\<close>

theorem same_track_claimed_twice:
  "run_calls [Update_tracks [person_at 0 0], Update_tracks [person_at 1 0, person_at 2 0]]
     init_analyzer =
   Inr \<lparr> tracked_objects =
           [(0, \<lparr> track_id = 0, class_name = ''person'', first_seen = 1, last_seen = 2,
                  position_history = [(0, 0), (1, 0), (2, 0)],
                  bbox_history = [(0, 0, 10, 10), (0, 0, 10, 10), (0, 0, 10, 10)],
                  total_distance = 2, is_stationary = False, stationary_frames = 2,
                  suspicious_behavior = False, behavior_type = None, confidence = 0 \<rparr>)],
         next_object_id = 1, frame_count = 2, alert_cooldown = Map.empty \<rparr>"
  by (simp add: eval_defs)

text \<open>
  Claim C8 as stated fails: a detection with \<open>x1 \<ge> x2\<close> is not rejected. On a new analyzer
  it creates track 0, whose box history holds the malformed box.
\<close>

theorem malformed_detection_creates_track:
  "malformed flat_person \<and>
   update_tracks [flat_person] init_analyzer =
     Inr \<lparr> tracked_objects = [(0, new_tracked_object 0 flat_person 1)],
           next_object_id = 1, frame_count = 1, alert_cooldown = Map.empty \<rparr> \<and>
   bbox_history (new_tracked_object 0 flat_person 1) = [(10, 0, 10, 20)]"
  by (simp add: malformed_def flat_person_def update_tracks_def track_detection_def
        match_detection_to_tracked_def init_analyzer_def remove_old_def to_remove_def
        new_tracked_object_def deque_append_def maxlen_def)

lemma erase_track_idem: "erase_track (erase_track t) = erase_track t"
  by (simp add: erase_track_def)

lemma erase_tracks_idem:
  "map (apsnd erase_track) (map (apsnd erase_track) objs) = map (apsnd erase_track) objs"
  by (induction objs) (auto simp: erase_track_idem)

lemma erase_boxes_idem: "erase_boxes (erase_boxes s) = erase_boxes s"
  by (simp add: erase_boxes_def erase_tracks_idem del: map_map)

lemma match_loop_erased:
  assumes "same_but_box d d'"
  shows "match_loop d' fc (map (apsnd erase_track) objs) best = match_loop d fc objs best"
  using assms
  by (induction objs arbitrary: best)
     (auto simp: same_but_box_def erase_track_def Let_def split: sum.splits)

lemma match_erased:
  assumes "same_but_box d d'"
  shows "match_detection_to_tracked (erase_boxes s) d' md = match_detection_to_tracked s d md"
  by (simp add: match_detection_to_tracked_def erase_boxes_def match_loop_erased [OF assms])

lemma length_deque_append_eq:
  "length xs = length ys \<Longrightarrow>
   map (\<lambda>b. c) (deque_append xs x) = map (\<lambda>b. c) (deque_append ys y)"
  by (simp add: deque_append_def Let_def map_replicate_const)

lemma update_erased:
  assumes "same_but_box d d'"
  shows "(case update (erase_track t) d' fn of Inl e \<Rightarrow> Inl e | Inr u \<Rightarrow> Inr (erase_track u))
           = (case update t d fn of Inl e \<Rightarrow> Inl e | Inr t' \<Rightarrow> Inr (erase_track t'))"
proof -
  have ph: "position_history (erase_track t) = position_history t" by (simp add: erase_track_def)
  have c: "det_center d' = det_center d" using assms by (simp add: same_but_box_def)
  have b: "map (\<lambda>b. (0, 0, 0, 0)) (deque_append (bbox_history (erase_track t)) (det_bbox d'))
             = map (\<lambda>b. (0::int, 0::int, 0::int, 0::int)) (deque_append (bbox_history t) (det_bbox d))"
    by (rule length_deque_append_eq) (simp add: erase_track_def)
  show ?thesis
  proof (cases "newest (position_history t)")
    case (Inl e)
    then show ?thesis by (simp add: update_def ph)
  next
    case (Inr p)
    then show ?thesis
      using b by (simp add: update_def ph c Let_def) (simp add: erase_track_def)
  qed
qed

lemma map_of_apsnd: "map_of (map (apsnd f) al) k = map_option f (map_of al k)"
  by (induction al) auto

lemma map_update_apsnd:
  "map (apsnd f) (AList.update k v al) = AList.update k (f v) (map (apsnd f) al)"
  by (induction al) auto

lemma new_track_erased:
  assumes "same_but_box d d'"
  shows "erase_track (new_tracked_object i d' fn) = erase_track (new_tracked_object i d fn)"
  using assms
  by (simp add: new_tracked_object_def erase_track_def same_but_box_def deque_append_def
        Let_def maxlen_def)

lemma erased_fields:
  "frame_count (erase_boxes s) = frame_count s"
  "next_object_id (erase_boxes s) = next_object_id s"
  "tracked_objects (erase_boxes s) = map (apsnd erase_track) (tracked_objects s)"
  by (simp_all add: erase_boxes_def)

lemma track_detection_erased:
  assumes sb: "same_but_box d d'"
  shows "boxless (track_detection d' (erase_boxes s)) = boxless (track_detection d s)"
proof (cases "match_detection_to_tracked s d 100")
  case (Inl e)
  then show ?thesis
    by (simp add: track_detection_def match_erased [OF sb] boxless_def)
next
  case m: (Inr r)
  show ?thesis
  proof (cases r)
    case None
    let ?n = "next_object_id s" and ?fc = "frame_count s"
    have l: "track_detection d' (erase_boxes s) =
               Inr (erase_boxes s \<lparr> next_object_id := ?n + 1,
                      tracked_objects := AList.update ?n (new_tracked_object ?n d' ?fc)
                                           (map (apsnd erase_track) (tracked_objects s)) \<rparr>)"
      by (simp add: track_detection_def match_erased [OF sb] m None Let_def erased_fields)
    have r: "track_detection d s =
               Inr (s \<lparr> next_object_id := ?n + 1,
                      tracked_objects := AList.update ?n (new_tracked_object ?n d ?fc)
                                           (tracked_objects s) \<rparr>)"
      by (simp add: track_detection_def m None Let_def)
    show ?thesis
      unfolding l r boxless_def
      by (simp add: erase_boxes_def map_update_apsnd erase_tracks_idem new_track_erased [OF sb]
            del: map_map)
  next
    case (Some i)
    show ?thesis
    proof (cases "map_of (tracked_objects s) i")
      case None
      then show ?thesis
        by (simp add: track_detection_def match_erased [OF sb] m Some boxless_def erased_fields
              map_of_apsnd)
    next
      case t: (Some t)
      have mo: "map_of (tracked_objects (erase_boxes s)) i = Some (erase_track t)"
        by (simp add: erased_fields map_of_apsnd t)
      show ?thesis
      proof (cases "update t d (frame_count s)")
        case (Inl e)
        with update_erased [OF sb, of t "frame_count s"]
        have "\<exists>e'. update (erase_track t) d' (frame_count s) = Inl e'"
          by (auto split: sum.splits)
        then obtain e' where ue: "update (erase_track t) d' (frame_count s) = Inl e'" by blast
        with update_erased [OF sb, of t "frame_count s"] Inl have "e' = e" by simp
        with ue Inl show ?thesis
          by (simp add: track_detection_def match_erased [OF sb] m Some boxless_def mo t
                erased_fields(1))
      next
        case (Inr t')
        with update_erased [OF sb, of t "frame_count s"]
        obtain u where ue: "update (erase_track t) d' (frame_count s) = Inr u"
          and eq: "erase_track u = erase_track t'"
          by (auto split: sum.splits)
        have l: "track_detection d' (erase_boxes s) =
                   Inr (erase_boxes s \<lparr> tracked_objects :=
                          AList.update i u (map (apsnd erase_track) (tracked_objects s)) \<rparr>)"
          by (simp add: track_detection_def match_erased [OF sb] m Some mo ue erased_fields(1))
             (simp add: erased_fields(3))
        have r: "track_detection d s =
                   Inr (s \<lparr> tracked_objects := AList.update i t' (tracked_objects s) \<rparr>)"
          by (simp add: track_detection_def m Some t Inr)
        show ?thesis
          unfolding l r boxless_def
          by (simp add: erase_boxes_def map_update_apsnd erase_tracks_idem eq del: map_map)
      qed
    qed
  qed
qed

lemma boxless_Inl: "boxless r = Inl e \<longleftrightarrow> r = Inl e"
  by (cases r) (simp_all add: boxless_def)

lemma boxless_Inr: "boxless r = boxless (Inr s) \<longleftrightarrow> (\<exists>s'. r = Inr s' \<and> erase_boxes s' = erase_boxes s)"
  by (cases r) (simp_all add: boxless_def)

lemma detection_loop_erased_same:
  "boxless (detection_loop ds (erase_boxes s)) = boxless (detection_loop ds s)"
proof (induction ds arbitrary: s)
  case Nil
  then show ?case by (simp add: boxless_def erase_boxes_idem)
next
  case (Cons d ds)
  have sb: "same_but_box d d" by (simp add: same_but_box_def)
  show ?case
  proof (cases "track_detection d s")
    case (Inl e)
    with track_detection_erased [OF sb, of s]
    have "boxless (track_detection d (erase_boxes s)) = Inl e" by (simp add: boxless_def)
    then have "track_detection d (erase_boxes s) = Inl e" by (simp only: boxless_Inl)
    with Inl show ?thesis by simp
  next
    case (Inr s1)
    with track_detection_erased [OF sb, of s]
    obtain s1' where l: "track_detection d (erase_boxes s) = Inr s1'"
      and eq: "erase_boxes s1' = erase_boxes s1"
      by (auto simp: boxless_Inr)
    have "boxless (detection_loop ds s1') = boxless (detection_loop ds (erase_boxes s1'))"
      by (rule Cons.IH [symmetric])
    also have "\<dots> = boxless (detection_loop ds s1)" unfolding eq by (rule Cons.IH)
    finally show ?thesis by (simp add: l Inr)
  qed
qed

lemma detection_loop_erased:
  "list_all2 same_but_box ds ds' \<Longrightarrow>
   boxless (detection_loop ds' (erase_boxes s)) = boxless (detection_loop ds s)"
proof (induction ds ds' arbitrary: s rule: list_all2_induct)
  case Nil
  then show ?case by (simp add: boxless_def erase_boxes_idem)
next
  case (Cons d ds d' ds')
  show ?case
  proof (cases "track_detection d s")
    case (Inl e)
    with track_detection_erased [OF Cons.hyps(1), of s]
    have "boxless (track_detection d' (erase_boxes s)) = Inl e" by (simp add: boxless_def)
    then have "track_detection d' (erase_boxes s) = Inl e" by (simp only: boxless_Inl)
    with Inl show ?thesis by simp
  next
    case (Inr s1)
    with track_detection_erased [OF Cons.hyps(1), of s]
    obtain s1' where l: "track_detection d' (erase_boxes s) = Inr s1'"
      and eq: "erase_boxes s1' = erase_boxes s1"
      by (auto simp: boxless_Inr)
    have "boxless (detection_loop ds' s1') = boxless (detection_loop ds' (erase_boxes s1'))"
      by (rule detection_loop_erased_same [symmetric])
    also have "\<dots> = boxless (detection_loop ds s1)" unfolding eq by (rule Cons.IH)
    finally show ?thesis by (simp add: l Inr)
  qed
qed

lemma to_remove_erased: "to_remove fc (map (apsnd erase_track) objs) = to_remove fc objs"
  by (induction objs) (auto simp: to_remove_def erase_track_def)

lemma remove_old_erased:
  "remove_old fc (map (apsnd erase_track) objs) = map (apsnd erase_track) (remove_old fc objs)"
  by (simp add: remove_old_def foldl_delete_filter to_remove_erased filter_map comp_def)

lemma sweep_erased:
  assumes "erase_boxes s1' = erase_boxes s1"
  shows "erase_boxes (s1' \<lparr> tracked_objects := remove_old (frame_count s1') (tracked_objects s1') \<rparr>)
       = erase_boxes (s1 \<lparr> tracked_objects := remove_old (frame_count s1) (tracked_objects s1) \<rparr>)"
proof -
  have "erase_boxes (s \<lparr> tracked_objects := remove_old (frame_count s) (tracked_objects s) \<rparr>)
          = (erase_boxes s) \<lparr> tracked_objects :=
               remove_old (frame_count (erase_boxes s)) (tracked_objects (erase_boxes s)) \<rparr>" for s
    by (simp add: erase_boxes_def remove_old_erased)
  with assms show ?thesis by simp
qed

lemma update_tracks_erased:
  assumes "list_all2 same_but_box ds ds'"
  shows "boxless (update_tracks ds' s) = boxless (update_tracks ds s)"
proof -
  let ?s0 = "s \<lparr> frame_count := frame_count s + 1 \<rparr>"
  have loops: "boxless (detection_loop ds' ?s0) = boxless (detection_loop ds ?s0)"
    using detection_loop_erased_same [of ds' ?s0] detection_loop_erased [OF assms, of ?s0]
    by simp
  show ?thesis
  proof (cases "detection_loop ds ?s0")
    case (Inl e)
    with loops have "boxless (detection_loop ds' ?s0) = Inl e" by (simp add: boxless_def)
    then have "detection_loop ds' ?s0 = Inl e" by (simp only: boxless_Inl)
    with Inl show ?thesis by (simp add: update_tracks_def)
  next
    case (Inr s1)
    with loops obtain s1' where l: "detection_loop ds' ?s0 = Inr s1'"
      and eq: "erase_boxes s1' = erase_boxes s1"
      by (auto simp: boxless_Inr)
    show ?thesis
      by (simp add: update_tracks_def l Inr boxless_def sweep_erased [OF eq])
  qed
qed

lemma update_appends_box:
  "update t d fn = Inr t' \<Longrightarrow> bbox_history t' = deque_append (bbox_history t) (det_bbox d)"
  by (auto simp: update_def Let_def split: sum.splits if_splits)

text \<open>
  Claim C8, amended. The tracker never examines a box. The outcome of a frame depends on
  the classes and centres of its detections only: frames whose detections agree in these,
  whatever their boxes, well formed or not, yield the same error or the same analyzer up
  to the stored boxes, so a malformed box changes neither which tracks are matched,
  created or evicted nor what any other detection of the frame does. On an analyzer
  satisfying the invariant the frame is never aborted, and every detection is taken up by
  the track the matcher returns for it, to which its centre and box are appended, or by a
  new track when the matcher returns none.
\<close>

theorem boxes_are_never_examined:
  "(list_all2 same_but_box dets dets' \<longrightarrow>
      boxless (update_tracks dets' s) = boxless (update_tracks dets s)) \<and>
   (analyzer_ok s \<longrightarrow> (\<exists>s'. update_tracks dets s = Inr s')) \<and>
   (analyzer_ok s \<longrightarrow>
      (\<exists>s'. track_detection det s = Inr s' \<and>
         (case match_detection_to_tracked s det 100 of
            Inl e \<Rightarrow> False
          | Inr None \<Rightarrow>
              tracked_objects s' =
                AList.update (next_object_id s)
                  (new_tracked_object (next_object_id s) det (frame_count s)) (tracked_objects s)
          | Inr (Some i) \<Rightarrow>
              (\<exists>t t'. map_of (tracked_objects s) i = Some t \<and>
                 update t det (frame_count s) = Inr t' \<and>
                 position_history t' = deque_append (position_history t) (det_center det) \<and>
                 bbox_history t' = deque_append (bbox_history t) (det_bbox det) \<and>
                 tracked_objects s' = AList.update i t' (tracked_objects s)))))"
proof (intro conjI impI)
  assume "list_all2 same_but_box dets dets'"
  then show "boxless (update_tracks dets' s) = boxless (update_tracks dets s)"
    by (rule update_tracks_erased)
next
  assume "analyzer_ok s"
  from update_tracks_ok [OF this, of dets] show "\<exists>s'. update_tracks dets s = Inr s'" by blast
next
  assume ok: "analyzer_ok s"
  from ok have dist: "distinct (map fst (tracked_objects s))" by (simp add: analyzer_ok_def)
  from track_detection_cases [OF ok, of det]
  show "\<exists>s'. track_detection det s = Inr s' \<and>
         (case match_detection_to_tracked s det 100 of
            Inl e \<Rightarrow> False
          | Inr None \<Rightarrow>
              tracked_objects s' =
                AList.update (next_object_id s)
                  (new_tracked_object (next_object_id s) det (frame_count s)) (tracked_objects s)
          | Inr (Some i) \<Rightarrow>
              (\<exists>t t'. map_of (tracked_objects s) i = Some t \<and>
                 update t det (frame_count s) = Inr t' \<and>
                 position_history t' = deque_append (position_history t) (det_center det) \<and>
                 bbox_history t' = deque_append (bbox_history t) (det_bbox det) \<and>
                 tracked_objects s' = AList.update i t' (tracked_objects s)))"
  proof (cases "match_detection_to_tracked s det 100")
    case (Inl e)
    with match_detection_spec [OF analyzer_ok_nonempty [OF ok], of det 100]
    show ?thesis by auto
  next
    case m: (Inr r)
    show ?thesis
    proof (cases r)
      case None
      then show ?thesis by (simp add: track_detection_def m Let_def)
    next
      case (Some i)
      with m match_detection_spec [OF analyzer_ok_nonempty [OF ok], of det 100]
      obtain t where it: "(i, t) \<in> set (tracked_objects s)" by auto
      with dist have mo: "map_of (tracked_objects s) i = Some t" by simp
      from ok it have tok: "track_ok t" and ls: "last_seen t \<le> frame_count s"
        by (auto simp: analyzer_ok_def)
      then have "first_seen t \<le> frame_count s" by (simp add: track_ok_def)
      from update_ok [OF tok this, of det]
      obtain t' where u: "update t det (frame_count s) = Inr t'" by blast
      have ph: "position_history t' = deque_append (position_history t) (det_center det)"
        using u by (auto simp: update_def Let_def split: sum.splits if_splits)
      from mo u ph update_appends_box [OF u] show ?thesis
        by (simp add: track_detection_def m Some)
    qed
  qed
qed

lemma state_person_0_10:
  "state_after [Update_tracks [person_at 0 10]] =
     \<lparr> tracked_objects = [(0, new_tracked_object 0 (person_at 0 10) 1)],
       next_object_id = 1, frame_count = 1, alert_cooldown = Map.empty \<rparr>"
  by (simp add: state_after_def eval_defs)

theorem boxes_are_never_examined_witness:
  "malformed flat_person \<and> \<not> malformed (person_at 10 10) \<and>
   list_all2 same_but_box [person_at 1 10, person_at 10 10, person_at 300 10]
     [person_at 1 10, flat_person, person_at 300 10] \<and>
   boxless (update_tracks [person_at 1 10, flat_person, person_at 300 10]
              (state_after [Update_tracks [person_at 0 10]]))
     = boxless (update_tracks [person_at 1 10, person_at 10 10, person_at 300 10]
                  (state_after [Update_tracks [person_at 0 10]])) \<and>
   analyzer_ok (state_after [Update_tracks [person_at 0 10]]) \<and>
   (\<exists>s'. update_tracks [person_at 1 10, flat_person, person_at 300 10]
            (state_after [Update_tracks [person_at 0 10]]) = Inr s') \<and>
   (\<exists>s'. track_detection flat_person (state_after [Update_tracks [person_at 0 10]]) = Inr s' \<and>
      map (\<lambda>(i, t). (i, position_history t, bbox_history t)) (tracked_objects s')
        = [(0, [(0, 10), (10, 10)], [(0, 0, 10, 10), (10, 0, 10, 20)])])"
proof -
  let ?s = "state_after [Update_tracks [person_at 0 10]]"
  let ?good = "[person_at 1 10, person_at 10 10, person_at 300 10]"
  let ?bad = "[person_at 1 10, flat_person, person_at 300 10]"
  have m: "malformed flat_person" "\<not> malformed (person_at 10 10)"
    by (simp_all add: malformed_def flat_person_def person_at_def)
  have sb: "list_all2 same_but_box ?good ?bad"
    by (simp add: same_but_box_def flat_person_def person_at_def)
  have ok: "analyzer_ok ?s"
    unfolding state_person_0_10
    by (simp add: analyzer_ok_def track_ok_new) (simp add: new_tracked_object_def)
  have td: "\<exists>s'. track_detection flat_person ?s = Inr s' \<and>
      map (\<lambda>(i, t). (i, position_history t, bbox_history t)) (tracked_objects s')
        = [(0, [(0, 10), (10, 10)], [(0, 0, 10, 10), (10, 0, 10, 20)])]"
    unfolding state_person_0_10 by (simp add: flat_person_def eval_defs)
  from boxes_are_never_examined [of ?good ?bad ?s flat_person] sb ok
  have "boxless (update_tracks ?bad ?s) = boxless (update_tracks ?good ?s)"
    and "\<exists>s'. update_tracks ?good ?s = Inr s'"
    by blast+
  moreover
  from boxes_are_never_examined [of ?bad ?good ?s flat_person] ok
  have "\<exists>s'. update_tracks ?bad ?s = Inr s'" by blast
  ultimately show ?thesis using m sb ok td by (intro conjI)
qed

lemma speed_loop_sum: "speed_loop ps acc = acc + sum_list (step_distances ps)"
  by (induction ps acc rule: speed_loop.induct) (simp_all add: step_distances_def)

lemma length_step_distances: "length (step_distances ps) = length ps - 1"
  by (simp add: step_distances_def)

lemma step_distances_drop: "step_distances (drop k ps) = drop k (step_distances ps)"
  by (simp add: step_distances_def drop_map drop_zip tl_drop)

text \<open>
  Claim C5 as stated fails on a history of 11 positions: the code averages the 9 pairs of
  the last 10 positions, the spec's wording the last 10 pairs.
\<close>

lemma state_walk_11:
  "state_after (walk [0, 50, 51, 52, 53, 54, 55, 56, 57, 58, 59]) =
     \<lparr> tracked_objects =
         [(0, \<lparr> track_id = 0, class_name = ''person'', first_seen = 1, last_seen = 11,
                position_history = [(0, 0), (50, 0), (51, 0), (52, 0), (53, 0), (54, 0), (55, 0),
                                    (56, 0), (57, 0), (58, 0), (59, 0)],
                bbox_history = replicate 11 (0, 0, 10, 10),
                total_distance = 59, is_stationary = False, stationary_frames = 9,
                suspicious_behavior = False, behavior_type = None, confidence = 0 \<rparr>)],
       next_object_id = 1, frame_count = 11, alert_cooldown = Map.empty \<rparr>"
  by (simp add: state_after_def walk_def eval_defs numeral_eq_Suc)

theorem speed_window_counterexample:
  "map (\<lambda>(i, t). (length (position_history t), get_speed t, spec_speed (position_history t)))
     (tracked_objects (state_after (walk [0, 50, 51, 52, 53, 54, 55, 56, 57, 58, 59])))
   = [(11, 1, 59 / 10)]"
  unfolding state_walk_11
  by (simp add: get_speed_def spec_speed_def step_distances_def)

text \<open>
  Claim C5, amended. The speed is 0 for fewer than 2 positions and otherwise the average
  distance of the consecutive pairs within the last \<open>min(10, history length)\<close> positions,
  which are the last \<open>min(10, history length) - 1\<close> pairs of the history.
\<close>

theorem speed_is_window_average:
  "get_speed t = window_speed (position_history t)"
proof (cases "length (position_history t) < 2")
  case True
  then show ?thesis by (simp add: get_speed_def window_speed_def)
next
  case False
  let ?ps = "position_history t"
  let ?k = "length ?ps - 10"
  have len: "length (drop ?k ?ps) - 1 = min 10 (length ?ps) - 1" by auto
  have idx: "length (step_distances ?ps) - (min 10 (length ?ps) - 1) = ?k"
    using False by (auto simp: length_step_distances)
  have "get_speed t =
          sum_list (step_distances (drop ?k ?ps)) / real (length (drop ?k ?ps) - 1)"
    using False by (simp add: get_speed_def Let_def speed_loop_sum del: length_drop)
  also have "\<dots> = sum_list (drop ?k (step_distances ?ps)) / real (min 10 (length ?ps) - 1)"
    by (simp only: step_distances_drop len)
  also have "\<dots> = sum_list (drop (length (step_distances ?ps) - (min 10 (length ?ps) - 1))
                               (step_distances ?ps))
                     / real (min 10 (length ?ps) - 1)"
    by (simp only: idx)
  also have "\<dots> = window_speed ?ps"
    unfolding window_speed_def Let_def using False by (simp only: if_False)
  finally show ?thesis .
qed

lemma magnitude_zero_iff: "magnitude v = 0 \<longleftrightarrow> (fst v)\<^sup>2 + (snd v)\<^sup>2 = 0"
  by (simp add: magnitude_def)

lemma magnitude_pos_iff: "0 < magnitude v \<longleftrightarrow> 0 < (fst v)\<^sup>2 + (snd v)\<^sup>2"
  by (simp add: magnitude_def)

lemma cauchy_schwarz: "\<bar>dot v w\<bar> \<le> magnitude v * magnitude w"
proof -
  obtain a b where v: "v = (a, b)" by (cases v)
  obtain c d where w: "w = (c, d)" by (cases w)
  have "(a\<^sup>2 + b\<^sup>2) * (c\<^sup>2 + d\<^sup>2) - (a * c + b * d)\<^sup>2 = (a * d - b * c)\<^sup>2"
    by (simp add: power2_eq_square algebra_simps)
  then have "(a * c + b * d)\<^sup>2 \<le> (a\<^sup>2 + b\<^sup>2) * (c\<^sup>2 + d\<^sup>2)"
    by (smt (verit) zero_le_power2)
  then have "sqrt ((a * c + b * d)\<^sup>2) \<le> sqrt ((a\<^sup>2 + b\<^sup>2) * (c\<^sup>2 + d\<^sup>2))"
    by (rule real_sqrt_le_mono)
  then show ?thesis
    by (simp add: v w dot_def magnitude_def real_sqrt_mult)
qed

lemma arccos_obtuse: "-1 \<le> x \<Longrightarrow> x \<le> 1 \<Longrightarrow> pi / 2 < arccos x \<longleftrightarrow> x < 0"
  using arccos_less_mono [of 0 x] by (simp add: arccos_0 abs_le_iff)

lemma sharp_turn_dot:
  "sharp_turn v w \<longleftrightarrow> magnitude v \<noteq> 0 \<and> magnitude w \<noteq> 0 \<and> dot v w < 0"
proof (cases "magnitude v \<noteq> 0 \<and> magnitude w \<noteq> 0")
  case False
  then show ?thesis by (auto simp: sharp_turn_def)
next
  case True
  have nn: "0 \<le> magnitude v" "0 \<le> magnitude w" by (simp_all add: magnitude_def)
  with True have pos: "0 < magnitude v * magnitude w" by (simp add: less_le)
  from cauchy_schwarz [of v w]
  have lo: "- (magnitude v * magnitude w) \<le> dot v w" and hi: "dot v w \<le> magnitude v * magnitude w"
    by (simp_all add: abs_le_iff)
  from lo pos have lo': "- 1 \<le> dot v w / (magnitude v * magnitude w)"
    by (simp add: pos_le_divide_eq)
  from hi pos have hi': "dot v w / (magnitude v * magnitude w) \<le> 1"
    by (simp add: pos_divide_le_eq)
  have "pi / 2 < arccos (dot v w / (magnitude v * magnitude w))
               \<longleftrightarrow> dot v w / (magnitude v * magnitude w) < 0"
    using lo' hi' by (rule arccos_obtuse)
  also have "\<dots> \<longleftrightarrow> dot v w < 0" using pos by (simp add: divide_less_0_iff not_less [symmetric] less_imp_le)
  finally show ?thesis using True by (simp add: sharp_turn_def angle_between_def)
qed

lemma direction_change_dot:
  "direction_change p0 p1 p2 \<longleftrightarrow>
     (fst p1 - fst p0)\<^sup>2 + (snd p1 - snd p0)\<^sup>2 > 0 \<and>
     (fst p2 - fst p1)\<^sup>2 + (snd p2 - snd p1)\<^sup>2 > 0 \<and>
     (fst p1 - fst p0) * (fst p2 - fst p1) + (snd p1 - snd p0) * (snd p2 - snd p1) < 0"
proof (cases "(fst p1 - fst p0)\<^sup>2 + (snd p1 - snd p0)\<^sup>2 > 0 \<and>
     (fst p2 - fst p1)\<^sup>2 + (snd p2 - snd p1)\<^sup>2 > 0")
  case False
  then show ?thesis by (auto simp: direction_change_def Let_def)
next
  case True
  let ?d = "(fst p1 - fst p0) * (fst p2 - fst p1) + (snd p1 - snd p0) * (snd p2 - snd p1)"
  let ?m = "sqrt ((fst p1 - fst p0)\<^sup>2 + (snd p1 - snd p0)\<^sup>2)
            * sqrt ((fst p2 - fst p1)\<^sup>2 + (snd p2 - snd p1)\<^sup>2)"
  from True have pos: "0 < ?m" by simp
  have "pi / 2 < arccos (max (- 1) (min 1 (?d / ?m))) \<longleftrightarrow> max (- 1) (min 1 (?d / ?m)) < 0"
    by (intro arccos_obtuse) simp_all
  also have "\<dots> \<longleftrightarrow> ?d / ?m < 0" by auto
  also have "\<dots> \<longleftrightarrow> ?d < 0" using pos by (simp add: divide_less_0_iff not_less [symmetric] less_imp_le)
  finally show ?thesis using True by (simp add: direction_change_def Let_def)
qed

lemma magnitude_nonzero_iff: "magnitude v \<noteq> 0 \<longleftrightarrow> 0 < (fst v)\<^sup>2 + (snd v)\<^sup>2"
proof -
  have "0 \<le> (fst v)\<^sup>2 + (snd v)\<^sup>2" by simp
  then show ?thesis unfolding magnitude_zero_iff by linarith
qed

lemma direction_change_sharp_turn:
  "direction_change p0 p1 p2 =
     sharp_turn (fst p1 - fst p0, snd p1 - snd p0) (fst p2 - fst p1, snd p2 - snd p1)"
  by (simp only: direction_change_dot sharp_turn_dot magnitude_nonzero_iff dot_def fst_conv snd_conv)

lemma erratic_loop_count:
  "erratic_loop ps c =
     c + int (length (filter (\<lambda>(v, w). sharp_turn v w)
                        (zip (displacements ps) (tl (displacements ps)))))"
  by (induction ps c rule: erratic_loop.induct)
     (simp_all add: displacements_def direction_change_sharp_turn)

lemma spec_erratic_eq:
  "detect_erratic_movement t = spec_erratic (position_history t)"
  by (simp add: detect_erratic_movement_def spec_erratic_def Let_def erratic_loop_count not_less)

lemma zigzag_erratic: "detect_erratic_movement (t \<lparr> position_history := zigzag \<rparr>)"
  by (simp add: detect_erratic_movement_def zigzag_def direction_change_dot)

lemma straight_not_erratic: "\<not> detect_erratic_movement (t \<lparr> position_history := straight_line \<rparr>)"
  by (simp add: detect_erratic_movement_def straight_line_def direction_change_dot)

lemma arccos_minus_half: "arccos (- (1 / 2)) = 2 * pi / 3"
proof -
  have "arccos (cos (2 * pi / 3)) = 2 * pi / 3"
    by (rule arccos_cos) (simp_all add: field_simps)
  then show ?thesis by (simp add: cos_120)
qed

lemma zigzag_turns:
  "length zigzag = 15 \<and>
   map (\<lambda>(v, w). angle_between v w) (zip (displacements zigzag) (tl (displacements zigzag)))
     = replicate 13 (2 * pi / 3) \<and>
   map (\<lambda>(v, w). sgn (fst v * snd w - snd v * fst w))
       (zip (displacements zigzag) (tl (displacements zigzag)))
     = [1, - 1, 1, - 1, 1, - 1, 1, - 1, 1, - 1, 1, - 1, 1]"
  by (simp add: zigzag_def displacements_def angle_between_def dot_def magnitude_def
        arccos_minus_half numeral_eq_Suc)

text \<open>
  Claim C6. The erratic-movement test of the code agrees with the test in the spec's words
  on every track: false below 10 positions, else at least 5 consecutive displacement pairs
  with both vectors non-zero and an angle above a right angle among the last 15 positions.
  It holds for the 15-position zig-zag, whose every turn is 120 degrees alternately to the
  left and to the right (\<open>zigzag_turns\<close>), and not for the straight line of 15 positions.
\<close>

theorem erratic_movement_test:
  "detect_erratic_movement t = spec_erratic (position_history t) \<and>
   detect_erratic_movement (t \<lparr> position_history := zigzag \<rparr>) \<and>
   \<not> detect_erratic_movement (t \<lparr> position_history := straight_line \<rparr>)"
  using spec_erratic_eq [of t] zigzag_erratic [of t] straight_not_erratic [of t] by blast

lemma track_events_id:
  "e \<in> set (track_events fc i t cd) \<Longrightarrow> ev_object_id e = i \<and> \<not> in_cooldown fc i cd"
  by (auto simp: track_events_def expected_event_def split: if_splits)

lemma detect_events_origin:
  assumes ok: "analyzer_ok s" and d: "detect_suspicious_behaviors s = Inr (evs, s1)"
    and e: "e \<in> set evs"
  shows "\<exists>t. (ev_object_id e, t) \<in> set (tracked_objects s) \<and>
             e \<in> set (track_events (frame_count s) (ev_object_id e) t (alert_cooldown s))"
proof -
  from d e have "e \<in> set (concat (map (\<lambda>(i, t). track_events (frame_count s) i t (alert_cooldown s))
                          (tracked_objects s)))"
    by (simp add: detect_eq [OF ok])
  then obtain i t where it: "(i, t) \<in> set (tracked_objects s)"
    and m: "e \<in> set (track_events (frame_count s) i t (alert_cooldown s))" by auto
  from track_events_id [OF m] have "ev_object_id e = i" by simp
  with it m show ?thesis by auto
qed

lemma detect_state:
  assumes ok: "analyzer_ok s" and d: "detect_suspicious_behaviors s = Inr (evs, s1)"
  shows "s1 = s \<lparr> alert_cooldown :=
                     cooldown_after (frame_count s) (tracked_objects s) (alert_cooldown s) \<rparr>"
  using d by (simp add: detect_eq [OF ok])

lemma detect_total:
  assumes ok: "analyzer_ok s"
  shows "\<exists>evs s1. detect_suspicious_behaviors s = Inr (evs, s1) \<and> analyzer_ok s1
            \<and> frame_count s1 = frame_count s \<and> tracked_objects s1 = tracked_objects s"
  using ok by (simp add: detect_eq [OF ok] analyzer_ok_cooldown)

lemma alerted_after_event:
  assumes ok: "analyzer_ok s" and d: "detect_suspicious_behaviors s = Inr (evs, s1)"
    and e: "e \<in> set evs"
  shows "alerted_since (frame_count s) (ev_object_id e) s1"
proof -
  from detect_events_origin [OF ok d e]
  obtain t where it: "(ev_object_id e, t) \<in> set (tracked_objects s)"
    and m: "e \<in> set (track_events (frame_count s) (ev_object_id e) t (alert_cooldown s))"
    by blast
  from m have ne: "track_events (frame_count s) (ev_object_id e) t (alert_cooldown s) \<noteq> []"
    by auto
  with it have "cooldown_after (frame_count s) (tracked_objects s) (alert_cooldown s) (ev_object_id e)
                  = Some (frame_count s)"
    by (auto simp: cooldown_after_def)
  then show ?thesis
    by (simp add: detect_state [OF ok d] alerted_since_def)
qed

lemma alerted_do_call:
  assumes ok: "analyzer_ok s" and a: "alerted_since N i s" and c: "do_call c s = Inr s'"
  shows "alerted_since N i s'"
proof (cases c)
  case (Update_tracks dets)
  from update_tracks_ok [OF ok, of dets] c Update_tracks
  have "frame_count s' = frame_count s + 1" "alert_cooldown s' = alert_cooldown s" by auto
  with a show ?thesis by (simp add: alerted_since_def)
next
  case Detect_suspicious_behaviors
  from detect_total [OF ok]
  obtain evs s1 where d: "detect_suspicious_behaviors s = Inr (evs, s1)" by blast
  with c Detect_suspicious_behaviors have "s' = s1" by simp
  with detect_state [OF ok d]
  have s': "s' = s \<lparr> alert_cooldown :=
                     cooldown_after (frame_count s) (tracked_objects s) (alert_cooldown s) \<rparr>"
    by simp
  from a show ?thesis
    by (auto simp: s' alerted_since_def cooldown_after_def split: option.splits)
qed

lemma alerted_run_calls:
  "analyzer_ok s \<Longrightarrow> alerted_since N i s \<Longrightarrow> run_calls cs s = Inr s' \<Longrightarrow> alerted_since N i s'"
proof (induction cs arbitrary: s)
  case Nil
  then show ?case by simp
next
  case (Cons c cs)
  from do_call_ok [OF Cons.prems(1), of c]
  obtain s1 where c: "do_call c s = Inr s1" and ok1: "analyzer_ok s1" by blast
  from alerted_do_call [OF Cons.prems(1,2) c] have a1: "alerted_since N i s1" .
  from Cons.prems(3) c have "run_calls cs s1 = Inr s'" by simp
  from Cons.IH [OF ok1 a1 this] show ?case .
qed

lemma silenced:
  assumes ok: "analyzer_ok s" and a: "alerted_since N i s" and w: "frame_count s \<le> N + 89"
    and d: "detect_suspicious_behaviors s = Inr (evs, s1)"
  shows "\<forall>e \<in> set evs. ev_object_id e \<noteq> i"
proof
  fix e assume e: "e \<in> set evs"
  show "ev_object_id e \<noteq> i"
  proof
    assume eq: "ev_object_id e = i"
    from detect_events_origin [OF ok d e] eq
    obtain t where m: "e \<in> set (track_events (frame_count s) i t (alert_cooldown s))" by auto
    from track_events_id [OF m] have nc: "\<not> in_cooldown (frame_count s) i (alert_cooldown s)"
      by simp
    from a w have "in_cooldown (frame_count s) i (alert_cooldown s)"
      by (auto simp: alerted_since_def in_cooldown_def ALERT_COOLDOWN_FRAMES_def
               split: option.splits)
    with nc show False by simp
  qed
qed

text \<open>
  Claim C10. On an analyzer satisfying the invariant, once a pass of
  \<open>detect_suspicious_behaviors\<close> at frame \<open>N\<close> has emitted an event for a track, then after
  any further calls that leave the frame counter at most at \<open>N + 89\<close> a pass emits no event
  of any kind for that track (and none of these calls raises).
\<close>

theorem alert_silences_track:
  assumes "analyzer_ok s" "detect_suspicious_behaviors s = Inr (evs, s1)" "e \<in> set evs"
  shows "\<exists>s2 evs2 s3. run_calls calls s1 = Inr s2 \<and>
            detect_suspicious_behaviors s2 = Inr (evs2, s3) \<and>
            (frame_count s2 \<le> frame_count s + 89 \<longrightarrow>
               (\<forall>e2 \<in> set evs2. ev_object_id e2 \<noteq> ev_object_id e))"
proof -
  from detect_total [OF assms(1)] assms(2) have ok1: "analyzer_ok s1" by auto
  from run_calls_ok [OF ok1, of calls]
  obtain s2 where r: "run_calls calls s1 = Inr s2" and ok2: "analyzer_ok s2" by blast
  from detect_total [OF ok2]
  obtain evs2 s3 where d2: "detect_suspicious_behaviors s2 = Inr (evs2, s3)" by blast
  from alerted_after_event [OF assms]
  have "alerted_since (frame_count s) (ev_object_id e) s1" .
  from alerted_run_calls [OF ok1 this r]
  have a2: "alerted_since (frame_count s) (ev_object_id e) s2" .
  have "frame_count s2 \<le> frame_count s + 89 \<longrightarrow>
          (\<forall>e2 \<in> set evs2. ev_object_id e2 \<noteq> ev_object_id e)"
    using silenced [OF ok2 a2 _ d2] by blast
  with r d2 show ?thesis by blast
qed

lemmas detect_eval_defs =
  detect_suspicious_behaviors_def analyze_track_def fast_movement_block_def
  loitering_block_def erratic_movement_block_def in_cooldown_def is_moving_fast_def
  get_speed_def time_in_view_def detect_erratic_movement_def direction_change_dot newest_def
  FAST_MOVEMENT_THRESHOLD_def LOITERING_THRESHOLD_def ALERT_COOLDOWN_FRAMES_def

lemma run_pacing:
  "run_calls pacing init_analyzer =
     Inr \<lparr> tracked_objects =
             [(0, pacing_track 10
                    [(0, 0), (20, 0), (0, 0), (20, 0), (0, 0), (20, 0), (0, 0), (20, 0), (0, 0), (20, 0)]
                    180)],
           next_object_id = 1, frame_count = 10, alert_cooldown = Map.empty \<rparr>"
  by (simp add: pacing_def walk_def pacing_track_def eval_defs numeral_eq_Suc)

lemma detect_pacing:
  "detect_suspicious_behaviors
     \<lparr> tracked_objects =
         [(0, pacing_track 10
                [(0, 0), (20, 0), (0, 0), (20, 0), (0, 0), (20, 0), (0, 0), (20, 0), (0, 0), (20, 0)]
                180)],
       next_object_id = 1, frame_count = 10, alert_cooldown = Map.empty \<rparr> =
   Inr ([expected_event erratic_movement 0
           (pacing_track 10
              [(0, 0), (20, 0), (0, 0), (20, 0), (0, 0), (20, 0), (0, 0), (20, 0), (0, 0), (20, 0)]
              180)],
        \<lparr> tracked_objects =
         [(0, pacing_track 10
                [(0, 0), (20, 0), (0, 0), (20, 0), (0, 0), (20, 0), (0, 0), (20, 0), (0, 0), (20, 0)]
                180)],
       next_object_id = 1, frame_count = 10, alert_cooldown = [0 \<mapsto> 10] \<rparr>)"
  by (simp add: detect_eval_defs pacing_track_def expected_event_def)

lemma state_after_pacing:
  "state_after pacing =
     \<lparr> tracked_objects =
             [(0, pacing_track 10
                    [(0, 0), (20, 0), (0, 0), (20, 0), (0, 0), (20, 0), (0, 0), (20, 0), (0, 0), (20, 0)]
                    180)],
           next_object_id = 1, frame_count = 10, alert_cooldown = Map.empty \<rparr>"
  unfolding state_after_def run_pacing by simp

lemma run_calls_append:
  "run_calls (cs1 @ cs2) s =
     (case run_calls cs1 s of Inl e \<Rightarrow> Inl e | Inr s1 \<Rightarrow> run_calls cs2 s1)"
  by (induction cs1 arbitrary: s) (auto split: sum.splits)

lemma frame_11_after_alert:
  "run_calls (pacing @ [Detect_suspicious_behaviors, Update_tracks [person_at 0 0]]) init_analyzer =
     Inr \<lparr> tracked_objects =
             [(0, pacing_track 11
                    [(0, 0), (20, 0), (0, 0), (20, 0), (0, 0), (20, 0), (0, 0), (20, 0), (0, 0), (20, 0),
                     (0, 0)]
                    200)],
           next_object_id = 1, frame_count = 11, alert_cooldown = [0 \<mapsto> 10] \<rparr>"
  unfolding run_calls_append run_pacing
  by (simp add: detect_pacing) (simp add: pacing_track_def eval_defs numeral_eq_Suc)

lemma frame_11_without_alert:
  "run_calls (pacing @ [Update_tracks [person_at 0 0]]) init_analyzer =
     Inr \<lparr> tracked_objects =
             [(0, pacing_track 11
                    [(0, 0), (20, 0), (0, 0), (20, 0), (0, 0), (20, 0), (0, 0), (20, 0), (0, 0), (20, 0),
                     (0, 0)]
                    200)],
           next_object_id = 1, frame_count = 11, alert_cooldown = Map.empty \<rparr>"
  unfolding run_calls_append run_pacing
  by (simp add: pacing_track_def eval_defs numeral_eq_Suc)

text \<open>
  Claim C1 as stated fails. A person pacing between \<open>x = 0\<close> and \<open>x = 20\<close> is erratic from
  frame 10 and fast from frame 11 (the time in view must exceed 10). A pass at frame 10 emits
  the erratic-movement event; then the pass at frame 11 emits nothing, although fast
  movement qualifies and has never fired for the track. Without the pass at frame 10 the
  pass at frame 11 emits both kinds: the earlier event of one kind decides whether the
  other kind fires.
\<close>

theorem cooldown_shared_counterexample:
  "alerts_after pacing = [(0, erratic_movement)] \<and>
   alerts_after (pacing @ [Detect_suspicious_behaviors, Update_tracks [person_at 0 0]]) = [] \<and>
   alerts_after (pacing @ [Update_tracks [person_at 0 0]])
     = [(0, fast_movement), (0, erratic_movement)]"
proof (intro conjI)
  show "alerts_after pacing = [(0, erratic_movement)]"
    unfolding alerts_after_def state_after_pacing detect_pacing
    by (simp add: expected_event_def)
  show "alerts_after (pacing @ [Detect_suspicious_behaviors, Update_tracks [person_at 0 0]]) = []"
    unfolding alerts_after_def state_after_def frame_11_after_alert
    by (simp add: detect_eval_defs pacing_track_def)
  show "alerts_after (pacing @ [Update_tracks [person_at 0 0]])
     = [(0, fast_movement), (0, erratic_movement)]"
    unfolding alerts_after_def state_after_def frame_11_without_alert
    by (simp add: detect_eval_defs pacing_track_def)
qed

lemma filter_concat_key:
  assumes "distinct (map fst al)" "(i, t) \<in> set al"
    and ids: "\<And>j u e. e \<in> set (f j u) \<Longrightarrow> key e = j"
  shows "filter (\<lambda>e. key e = i) (concat (map (\<lambda>(j, u). f j u) al)) = f i t"
  using assms(1,2)
proof (induction al)
  case Nil
  then show ?case by simp
next
  case (Cons p al)
  obtain j u where p: "p = (j, u)" by (cases p)
  have all: "filter (\<lambda>e. key e = j) (f j u) = f j u"
    using ids by (simp add: filter_id_conv)
  have none: "filter (\<lambda>e. key e = i) (f j u) = []" if "j \<noteq> i"
    using ids that by (auto simp: filter_empty_conv)
  show ?case
  proof (cases "j = i")
    case True
    with Cons.prems p have ut: "u = t" and notin: "i \<notin> fst ` set al"
      by (auto simp: rev_image_eqI)
    have "filter (\<lambda>e. key e = i) (concat (map (\<lambda>(j, u). f j u) al)) = []"
    proof -
      have "\<And>e k v. (k, v) \<in> set al \<Longrightarrow> e \<in> set (f k v) \<Longrightarrow> key e \<noteq> i"
        using ids notin by force
      then show ?thesis by (auto simp: filter_empty_conv)
    qed
    with True ut all show ?thesis by (simp add: p)
  next
    case False
    with Cons.prems p have "(i, t) \<in> set al" "distinct (map fst al)" by auto
    with Cons.IH none [OF False] show ?thesis by (simp add: p)
  qed
qed

text \<open>
  Claim C1, amended. The cooldown has one entry per track. On an analyzer satisfying the
  invariant, a pass emits for a track \<open>i\<close> no event at all when the track is not a person or
  its entry is fewer than 90 frames old, and otherwise one event for every kind that
  qualifies, in the order fast movement, loitering, erratic movement; when it emits any, the
  entry of the track becomes the current frame.
\<close>

theorem cooldown_is_per_track:
  assumes "analyzer_ok s" "(i, t) \<in> set (tracked_objects s)"
  shows "\<exists>evs s'. detect_suspicious_behaviors s = Inr (evs, s') \<and>
           filter (\<lambda>e. ev_object_id e = i) evs =
             (if class_name t = ''person'' \<and>
                 \<not> (case alert_cooldown s i of None \<Rightarrow> False
                     | Some last_alert \<Rightarrow> frame_count s - last_alert < 90)
              then map (\<lambda>k. expected_event k i t)
                     (filter (\<lambda>k. qualifies k t) [fast_movement, loitering, erratic_movement])
              else []) \<and>
           alert_cooldown s' i =
             (if filter (\<lambda>e. ev_object_id e = i) evs = [] then alert_cooldown s i
              else Some (frame_count s))"
proof -
  let ?fc = "frame_count s" and ?cd = "alert_cooldown s"
  let ?evs = "concat (map (\<lambda>(j, u). track_events ?fc j u ?cd) (tracked_objects s))"
  let ?s' = "s \<lparr> alert_cooldown := cooldown_after ?fc (tracked_objects s) ?cd \<rparr>"
  from assms(1) have dist: "distinct (map fst (tracked_objects s))" by (simp add: analyzer_ok_def)
  have d: "detect_suspicious_behaviors s = Inr (?evs, ?s')" by (rule detect_eq [OF assms(1)])
  have f: "filter (\<lambda>e. ev_object_id e = i) ?evs = track_events ?fc i t ?cd"
    by (rule filter_concat_key [OF dist assms(2)]) (simp add: track_events_id)
  have uniq: "u = t" if "(i, u) \<in> set (tracked_objects s)" for u
    using dist that assms(2) by (rule eq_key_imp_eq_value)
  have ex: "(\<exists>u. (i, u) \<in> set (tracked_objects s) \<and> track_events ?fc i u ?cd \<noteq> [])
              \<longleftrightarrow> track_events ?fc i t ?cd \<noteq> []"
    using assms(2) uniq by blast
  have c: "alert_cooldown ?s' i = (if track_events ?fc i t ?cd = [] then ?cd i else Some ?fc)"
    by (simp add: cooldown_after_def ex)
  have te: "track_events ?fc i t ?cd =
             (if class_name t = ''person'' \<and>
                 \<not> (case alert_cooldown s i of None \<Rightarrow> False
                     | Some last_alert \<Rightarrow> frame_count s - last_alert < 90)
              then map (\<lambda>k. expected_event k i t)
                     (filter (\<lambda>k. qualifies k t) [fast_movement, loitering, erratic_movement])
              else [])"
    unfolding track_events_def in_cooldown_def ALERT_COOLDOWN_FRAMES_def by (rule refl)
  show ?thesis
  proof (intro exI [of _ ?evs] exI [of _ ?s'] conjI)
    show "detect_suspicious_behaviors s = Inr (?evs, ?s')" by (rule d)
    show "filter (\<lambda>e. ev_object_id e = i) ?evs =
             (if class_name t = ''person'' \<and>
                 \<not> (case alert_cooldown s i of None \<Rightarrow> False
                     | Some last_alert \<Rightarrow> frame_count s - last_alert < 90)
              then map (\<lambda>k. expected_event k i t)
                     (filter (\<lambda>k. qualifies k t) [fast_movement, loitering, erratic_movement])
              else [])"
      unfolding f by (rule te)
    show "alert_cooldown ?s' i =
             (if filter (\<lambda>e. ev_object_id e = i) ?evs = [] then alert_cooldown s i
              else Some (frame_count s))"
      unfolding f by (rule c)
  qed
qed

lemma state_after_frame_11:
  "state_after (pacing @ [Update_tracks [person_at 0 0]]) =
     \<lparr> tracked_objects =
             [(0, pacing_track 11
                    [(0, 0), (20, 0), (0, 0), (20, 0), (0, 0), (20, 0), (0, 0), (20, 0), (0, 0), (20, 0),
                     (0, 0)]
                    200)],
           next_object_id = 1, frame_count = 11, alert_cooldown = Map.empty \<rparr>"
  unfolding state_after_def frame_11_without_alert by simp

theorem cooldown_is_per_track_witness:
  "analyzer_ok (state_after (pacing @ [Update_tracks [person_at 0 0]])) \<and>
   map fst (tracked_objects (state_after (pacing @ [Update_tracks [person_at 0 0]]))) = [0] \<and>
   (\<exists>evs s'. detect_suspicious_behaviors (state_after (pacing @ [Update_tracks [person_at 0 0]]))
                = Inr (evs, s') \<and>
      map ev_behavior_type (filter (\<lambda>e. ev_object_id e = 0) evs)
        = [fast_movement, erratic_movement] \<and>
      alert_cooldown s' 0 = Some 11)"
proof -
  let ?s = "state_after (pacing @ [Update_tracks [person_at 0 0]])"
  let ?t = "pacing_track 11
                    [(0, 0), (20, 0), (0, 0), (20, 0), (0, 0), (20, 0), (0, 0), (20, 0), (0, 0), (20, 0),
                     (0, 0)]
                    200"
  have ok: "analyzer_ok ?s"
    unfolding state_after_frame_11 by (simp add: analyzer_ok_def track_ok_def pacing_track_def)
  have mem: "(0, ?t) \<in> set (tracked_objects ?s)" unfolding state_after_frame_11 by simp
  have keys: "map fst (tracked_objects ?s) = [0]" unfolding state_after_frame_11 by simp
  have q: "filter (\<lambda>k. qualifies k ?t) [fast_movement, loitering, erratic_movement]
             = [fast_movement, erratic_movement]"
    by (simp add: detect_eval_defs pacing_track_def)
  have cls: "class_name ?t = ''person''" by (simp add: pacing_track_def)
  have cd: "alert_cooldown ?s 0 = None" "frame_count ?s = 11"
    unfolding state_after_frame_11 by simp_all
  from cooldown_is_per_track [OF ok mem]
  obtain evs s' where d: "detect_suspicious_behaviors ?s = Inr (evs, s')"
    and f: "filter (\<lambda>e. ev_object_id e = 0) evs =
             (if class_name ?t = ''person'' \<and>
                 \<not> (case alert_cooldown ?s 0 of None \<Rightarrow> False
                     | Some last_alert \<Rightarrow> frame_count ?s - last_alert < 90)
              then map (\<lambda>k. expected_event k 0 ?t)
                     (filter (\<lambda>k. qualifies k ?t) [fast_movement, loitering, erratic_movement])
              else [])"
    and c: "alert_cooldown s' 0 =
             (if filter (\<lambda>e. ev_object_id e = 0) evs = [] then alert_cooldown ?s 0
              else Some (frame_count ?s))"
    by blast
  have f': "filter (\<lambda>e. ev_object_id e = 0) evs
                    = [expected_event fast_movement 0 ?t, expected_event erratic_movement 0 ?t]"
    using f unfolding q cls cd by simp
  then have k: "map ev_behavior_type (filter (\<lambda>e. ev_object_id e = 0) evs)
                  = [fast_movement, erratic_movement]"
    by (simp add: expected_event_def)
  from c f' have c': "alert_cooldown s' 0 = Some 11" by (simp add: cd)
  have "\<exists>evs s'. detect_suspicious_behaviors ?s = Inr (evs, s') \<and>
      map ev_behavior_type (filter (\<lambda>e. ev_object_id e = 0) evs)
        = [fast_movement, erratic_movement] \<and>
      alert_cooldown s' 0 = Some 11"
    by (intro exI [of _ evs] exI [of _ s'] conjI) (rule d, rule k, rule c')
  with ok keys show ?thesis by (intro conjI)
qed

lemma analyzer_ok_pacing: "analyzer_ok (state_after pacing)"
  unfolding state_after_pacing by (simp add: analyzer_ok_def track_ok_def pacing_track_def)

theorem alert_silences_track_witness:
  "analyzer_ok (state_after pacing) \<and>
   (\<exists>e s1. detect_suspicious_behaviors (state_after pacing) = Inr ([e], s1) \<and>
      ev_object_id e = 0 \<and> frame_count (state_after pacing) = 10 \<and>
      (\<exists>s2 evs2 s3. run_calls [Update_tracks [person_at 0 0]] s1 = Inr s2 \<and>
          detect_suspicious_behaviors s2 = Inr (evs2, s3) \<and> frame_count s2 = 11 \<and>
          (\<forall>e2 \<in> set evs2. ev_object_id e2 \<noteq> 0)))"
proof -
  let ?s = "state_after pacing"
  let ?t = "pacing_track 10
                [(0, 0), (20, 0), (0, 0), (20, 0), (0, 0), (20, 0), (0, 0), (20, 0), (0, 0), (20, 0)]
                180"
  let ?e = "expected_event erratic_movement 0 ?t"
  let ?s1 = "\<lparr> tracked_objects = [(0, ?t)],
       next_object_id = 1, frame_count = 10, alert_cooldown = [0 \<mapsto> 10] \<rparr>"
  have d: "detect_suspicious_behaviors ?s = Inr ([?e], ?s1)"
    unfolding state_after_pacing by (rule detect_pacing)
  have e: "?e \<in> set [?e]" by simp
  have id: "ev_object_id ?e = 0" by (simp add: expected_event_def)
  have fc: "frame_count ?s = 10" unfolding state_after_pacing by simp
  from alert_silences_track [OF analyzer_ok_pacing d e, of "[Update_tracks [person_at 0 0]]"]
  obtain s2 evs2 s3 where r: "run_calls [Update_tracks [person_at 0 0]] ?s1 = Inr s2"
    and d2: "detect_suspicious_behaviors s2 = Inr (evs2, s3)"
    and q: "frame_count s2 \<le> frame_count ?s + 89 \<longrightarrow>
               (\<forall>e2 \<in> set evs2. ev_object_id e2 \<noteq> ev_object_id ?e)"
    by blast
  have ok1: "analyzer_ok ?s1" by (simp add: analyzer_ok_def track_ok_def pacing_track_def)
  from update_tracks_ok [OF ok1, of "[person_at 0 0]"] r
  have fc2: "frame_count s2 = 11" by (auto split: sum.splits)
  with q fc id have "\<forall>e2 \<in> set evs2. ev_object_id e2 \<noteq> 0" by simp
  then have "\<exists>s2 evs2 s3. run_calls [Update_tracks [person_at 0 0]] ?s1 = Inr s2 \<and>
          detect_suspicious_behaviors s2 = Inr (evs2, s3) \<and> frame_count s2 = 11 \<and>
          (\<forall>e2 \<in> set evs2. ev_object_id e2 \<noteq> 0)"
    using r d2 fc2 by (intro exI [of _ s2] exI [of _ evs2] exI [of _ s3] conjI)
  with d id fc
  have "\<exists>e s1. detect_suspicious_behaviors ?s = Inr ([e], s1) \<and>
      ev_object_id e = 0 \<and> frame_count ?s = 10 \<and>
      (\<exists>s2 evs2 s3. run_calls [Update_tracks [person_at 0 0]] s1 = Inr s2 \<and>
          detect_suspicious_behaviors s2 = Inr (evs2, s3) \<and> frame_count s2 = 11 \<and>
          (\<forall>e2 \<in> set evs2. ev_object_id e2 \<noteq> 0))"
    by - (rule exI [of _ ?e], rule exI [of _ ?s1], intro conjI)
  with analyzer_ok_pacing show ?thesis by (intro conjI)
qed






















































end
